theory Spec2Isabelle
  imports Main "HOL-Library.Char_ord" "HOL-Library.List_Lexorder" "HOL-Library.AList"
begin

section \<open>Values and the object heap\<close>

text \<open>
  The module \<^verbatim>\<open>src/util/object.ts\<close> works on JavaScript values. Primitives are
  compared by value, arrays and objects by reference, so objects live in a heap and a
  value only holds the address of one. Numbers are the integers and \<open>NaN\<close>, the one
  number that is not \<^verbatim>\<open>===\<close> to itself. A function is an opaque value with a name for
  its identity. A plain object is the list of its own enumerable properties in
  enumeration order; a regular expression is an object with no enumerable property.
  Every object inherits the members of \<^verbatim>\<open>Object.prototype\<close>, which are functions and not
  enumerable. An own property named \<^verbatim>\<open>__proto__\<close>, which \<^verbatim>\<open>JSON.parse\<close> creates and an
  object literal does not, is read and enumerated like any other. Left out are a
  prototype other than \<^verbatim>\<open>Object.prototype\<close>, the accessor \<^verbatim>\<open>__proto__\<close> that an object
  without such an own property inherits, and the rule that puts array-index keys first
  in the enumeration order of an object that is built key by key.
\<close>

type_synonym addr = nat

datatype val =
    VUndefined
  | VNull
  | VBool bool
  | VNum int
  | VNaN
  | VStr string
  | VFun string
  | VRef addr

datatype node =
    Array "val list"
  | Object "(string \<times> val) list"
  | RegExp string

type_synonym heap = "node list"

definition lookup :: "heap \<Rightarrow> addr \<Rightarrow> node option" where
  "lookup h a = (if a < length h then Some (h ! a) else None)"

text \<open>\<^verbatim>\<open>a === b\<close>\<close>

definition strictEq :: "val \<Rightarrow> val \<Rightarrow> bool" where
  "strictEq a b = (a = b \<and> a \<noteq> VNaN)"

text \<open>\<^verbatim>\<open>typeof v\<close>\<close>

fun typeof :: "val \<Rightarrow> string" where
  "typeof VUndefined = ''undefined''"
| "typeof VNull = ''object''"
| "typeof (VBool b) = ''boolean''"
| "typeof (VNum i) = ''number''"
| "typeof VNaN = ''number''"
| "typeof (VStr s) = ''string''"
| "typeof (VFun f) = ''function''"
| "typeof (VRef a) = ''object''"

text \<open>\<^verbatim>\<open>!v\<close>: the falsy values\<close>

fun falsy :: "val \<Rightarrow> bool" where
  "falsy VUndefined = True"
| "falsy VNull = True"
| "falsy (VBool b) = (\<not> b)"
| "falsy (VNum i) = (i = 0)"
| "falsy VNaN = True"
| "falsy (VStr s) = (s = [])"
| "falsy (VFun f) = False"
| "falsy (VRef a) = False"

text \<open>\<^verbatim>\<open>Array.isArray(v)\<close>\<close>

fun isArray :: "heap \<Rightarrow> val \<Rightarrow> bool" where
  "isArray h (VRef a) = (case lookup h a of Some (Array xs) \<Rightarrow> True | _ \<Rightarrow> False)"
| "isArray h v = False"

text \<open>The elements of an array, \<^verbatim>\<open>v[0], ..., v[v.length - 1]\<close>.\<close>

fun elems :: "heap \<Rightarrow> val \<Rightarrow> val list" where
  "elems h (VRef a) = (case lookup h a of Some (Array xs) \<Rightarrow> xs | _ \<Rightarrow> [])"
| "elems h v = []"

text \<open>The own enumerable properties of a non-array object, as \<^verbatim>\<open>for (key in v)\<close> and
  \<^verbatim>\<open>Object.keys(v)\<close> enumerate them.\<close>

fun props :: "heap \<Rightarrow> val \<Rightarrow> (string \<times> val) list" where
  "props h (VRef a) = (case lookup h a of Some (Object kvs) \<Rightarrow> kvs | _ \<Rightarrow> [])"
| "props h v = []"

definition keys :: "heap \<Rightarrow> val \<Rightarrow> string list" where
  "keys h v = map fst (props h v)"

text \<open>The names that every object inherits from \<^verbatim>\<open>Object.prototype\<close>.\<close>

definition objectPrototypeKeys :: "string list" where
  "objectPrototypeKeys =
     [''constructor'', ''hasOwnProperty'', ''isPrototypeOf'', ''propertyIsEnumerable'',
      ''toLocaleString'', ''toString'', ''valueOf'', ''__defineGetter__'',
      ''__defineSetter__'', ''__lookupGetter__'', ''__lookupSetter__'']"

text \<open>\<^verbatim>\<open>v[key]\<close> on a non-array object: the own property, else the inherited member,
  else \<^verbatim>\<open>undefined\<close>.\<close>

definition getProp :: "heap \<Rightarrow> val \<Rightarrow> string \<Rightarrow> val" where
  "getProp h v k =
     (case map_of (props h v) k of
        Some x \<Rightarrow> x
      | None \<Rightarrow> if k \<in> set objectPrototypeKeys then VFun k else VUndefined)"

text \<open>\<^verbatim>\<open>key in v\<close> on a non-array object.\<close>

definition hasProp :: "heap \<Rightarrow> val \<Rightarrow> string \<Rightarrow> bool" where
  "hasProp h v k = (k \<in> set (keys h v) \<or> k \<in> set objectPrototypeKeys)"

text \<open>A new object gets the next free address.\<close>

definition alloc :: "heap \<Rightarrow> node \<Rightarrow> heap \<times> val" where
  "alloc h nd = (h @ [nd], VRef (length h))"

text \<open>The values an object holds, and the values whose nesting is at most \<open>n\<close> objects
  deep. A value is acyclic when some \<open>n\<close> bounds its depth.\<close>

fun children :: "node \<Rightarrow> val list" where
  "children (Array xs) = xs"
| "children (Object kvs) = map snd kvs"
| "children (RegExp s) = []"

fun depthAtMost :: "nat \<Rightarrow> heap \<Rightarrow> val \<Rightarrow> bool" where
  "depthAtMost n h (VRef a) =
     (case n of
        0 \<Rightarrow> False
      | Suc m \<Rightarrow>
          (case lookup h a of
             None \<Rightarrow> False
           | Some nd \<Rightarrow> list_all (depthAtMost m h) (children nd)))"
| "depthAtMost n h v = True"

text \<open>
  Modelled from the spec: the module \<^verbatim>\<open>./is\<close> is not part of the sources. Its
  \<^verbatim>\<open>Is.objectLiteral\<close> answers "is this value a plain mapping" and its \<^verbatim>\<open>Is.array\<close>
  "is this value an ordered sequence" (\<open>isArray\<close> above).
\<close>

fun objectLiteral :: "heap \<Rightarrow> val \<Rightarrow> bool" where
  "objectLiteral h (VRef a) = (case lookup h a of Some (Object kvs) \<Rightarrow> True | _ \<Rightarrow> False)"
| "objectLiteral h v = False"

section \<open>equals\<close>

text \<open>
  A \<^verbatim>\<open>for\<close> loop that returns \<^verbatim>\<open>false\<close> at the first failing test and falls through
  otherwise. \<open>None\<close> is a test that did not return.
\<close>

fun allTests :: "('a \<Rightarrow> bool option) \<Rightarrow> 'a list \<Rightarrow> bool option" where
  "allTests t [] = Some True"
| "allTests t (x # xs) =
     (case t x of
        None \<Rightarrow> None
      | Some False \<Rightarrow> Some False
      | Some True \<Rightarrow> allTests t xs)"

text \<open>
  \<^verbatim>\<open>equals(oneKeys, otherKeys)\<close> on the two freshly built arrays of key strings: they are
  distinct arrays, so the array branch runs, and two strings are equal only when
  \<^verbatim>\<open>===\<close>.
\<close>

definition equalsKeys :: "string list \<Rightarrow> string list \<Rightarrow> bool" where
  "equalsKeys oneKeys otherKeys =
     (length oneKeys = length otherKeys \<and>
      list_all2 (\<lambda>a b. strictEq (VStr a) (VStr b)) oneKeys otherKeys)"

text \<open>
  \<^verbatim>\<open>equals\<close> recurses through the object graph and does not return on a cyclic one, so
  the model counts the nesting depth down: \<open>None\<close> is "deeper than the fuel".
\<close>

fun equals :: "nat \<Rightarrow> heap \<Rightarrow> val \<Rightarrow> val \<Rightarrow> bool option" where
  "equals 0 h one other = None"
| "equals (Suc n) h one other =
     (if strictEq one other then Some True
      else if one = VNull \<or> one = VUndefined \<or> other = VNull \<or> other = VUndefined
        then Some False
      else if typeof one \<noteq> typeof other then Some False
      else if typeof one \<noteq> ''object'' then Some False
      else if isArray h one \<noteq> isArray h other then Some False
      else if isArray h one then
        (if length (elems h one) \<noteq> length (elems h other) then Some False
         else allTests (\<lambda>i. equals n h (elems h one ! i) (elems h other ! i))
                [0 ..< length (elems h one)])
      else
        (let oneKeys = sort (keys h one);
             otherKeys = sort (keys h other)
         in if \<not> equalsKeys oneKeys otherKeys then Some False
            else allTests (\<lambda>k. equals n h (getProp h one k) (getProp h other k)) oneKeys))"


section \<open>distinct\<close>

text \<open>
  The \<^verbatim>\<open>forEach\<close> over \<^verbatim>\<open>Object.keys(target)\<close>. The object \<^verbatim>\<open>result\<close> is known to the
  function alone until it returns, so the loop carries its properties and the
  object is stored when the function returns. \<^verbatim>\<open>result[k] = targetValue\<close> replaces the
  property \<open>k\<close> or adds it at the end.
\<close>

fun distinctLoop ::
  "nat \<Rightarrow> heap \<Rightarrow> val \<Rightarrow> val \<Rightarrow> string list \<Rightarrow> (string \<times> val) list
    \<Rightarrow> (string \<times> val) list option" where
  "distinctLoop n h base target [] result = Some result"
| "distinctLoop n h base target (k # ks) result =
     (let baseValue = getProp h base k;
          targetValue = getProp h target k
      in case equals n h baseValue targetValue of
           None \<Rightarrow> None
         | Some eq \<Rightarrow>
             distinctLoop n h base target ks
               (if \<not> eq then AList.update k targetValue result else result))"

text \<open>
  \<^verbatim>\<open>distinct(base, target)\<close>, with the fuel of \<open>equals\<close>. The parameters are declared as
  mappings; the model covers the calls where each is a plain object or falsy, and is
  \<open>None\<close> on the others, as it is when \<open>equals\<close> does not return. The result of
  \<^verbatim>\<open>Object.create(null)\<close> is stored as a plain object.
\<close>

definition distinctObjects :: "nat \<Rightarrow> heap \<Rightarrow> val \<Rightarrow> val \<Rightarrow> (heap \<times> val) option" where
  "distinctObjects n h base target =
     (if falsy base \<or> falsy target then Some (alloc h (Object []))
      else if objectLiteral h base \<and> objectLiteral h target then
        (case distinctLoop n h base target (keys h target) [] of
           None \<Rightarrow> None
         | Some result \<Rightarrow> Some (alloc h (Object result)))
      else None)"

section \<open>arrayToHash and createKeywordMatcher\<close>

text \<open>\<^verbatim>\<open>String.prototype.toLowerCase\<close> on the code units below 256.\<close>

definition lowerChar :: "char \<Rightarrow> char" where
  "lowerChar c =
     (let n = of_char c :: nat
      in if (65 \<le> n \<and> n \<le> 90) \<or> (192 \<le> n \<and> n \<le> 222 \<and> n \<noteq> 215)
         then char_of (n + 32) else c)"

definition toLowerCase :: "string \<Rightarrow> string" where
  "toLowerCase s = map lowerChar s"

text \<open>
  \<^verbatim>\<open>result[array[i]] = true\<close> for each word in turn. Assigning a primitive to
  \<^verbatim>\<open>__proto__\<close> goes to the inherited setter, which ignores it: no property is created.
\<close>

fun arrayToHash :: "string list \<Rightarrow> (string \<times> val) list \<Rightarrow> (string \<times> val) list" where
  "arrayToHash [] result = result"
| "arrayToHash (w # ws) result =
     arrayToHash ws (if w = ''__proto__'' then result else AList.update w (VBool True) result)"

datatype error = TypeError | RecursiveStructure

text \<open>
  \<^verbatim>\<open>hash[word] !== undefined && hash.hasOwnProperty(word)\<close> on the hash, an object known
  to the closure alone and given here by its own properties. \<^verbatim>\<open>hash[word]\<close> finds an
  inherited member too, and \<^verbatim>\<open>__proto__\<close> reads the prototype. \<^verbatim>\<open>hash.hasOwnProperty\<close>
  is looked up like any property: an own property of that name shadows the inherited
  function, and calling \<^verbatim>\<open>true\<close> is a \<^verbatim>\<open>TypeError\<close>.
\<close>

definition hashTest :: "(string \<times> val) list \<Rightarrow> string \<Rightarrow> error + bool" where
  "hashTest hash word =
     (let defined =
            (case map_of hash word of
               Some x \<Rightarrow> x \<noteq> VUndefined
             | None \<Rightarrow> word \<in> set objectPrototypeKeys \<or> word = ''__proto__'')
      in if \<not> defined then Inr False
         else (case map_of hash ''hasOwnProperty'' of
                 None \<Rightarrow> Inr (word \<in> set (map fst hash))
               | Some f \<Rightarrow> Inl TypeError))"

definition createKeywordMatcher :: "string list \<Rightarrow> bool \<Rightarrow> string \<Rightarrow> error + bool" where
  "createKeywordMatcher arr caseInsensitive =
     (let arr' = (if caseInsensitive then map toLowerCase arr else arr);
          hash = arrayToHash arr' []
      in if caseInsensitive then (\<lambda>word. hashTest hash (toLowerCase word))
         else (\<lambda>word. hashTest hash word))"

section \<open>deepClone\<close>

text \<open>
  The \<^verbatim>\<open>forEach\<close> over \<^verbatim>\<open>Object.keys(obj)\<close>, applied to the values of \<open>obj\<close> in key order:
  a truthy value of type \<^verbatim>\<open>object\<close> is cloned by the recursive call \<open>f\<close>, any other value is
  taken as it is. The recursive calls create objects, so the heap is threaded through.
\<close>

fun cloneEach ::
  "(heap \<Rightarrow> val \<Rightarrow> (heap \<times> val) option) \<Rightarrow> heap \<Rightarrow> val list \<Rightarrow> (heap \<times> val list) option" where
  "cloneEach f h [] = Some (h, [])"
| "cloneEach f h (x # xs) =
     (case (if \<not> falsy x \<and> typeof x = ''object'' then f h x else Some (h, x)) of
        None \<Rightarrow> None
      | Some (h1, y) \<Rightarrow>
          (case cloneEach f h1 xs of
             None \<Rightarrow> None
           | Some (h2, ys) \<Rightarrow> Some (h2, y # ys)))"

text \<open>
  \<^verbatim>\<open>result[key] = value\<close> for the keys of \<open>obj\<close> in turn, on the new object \<^verbatim>\<open>{}\<close>. The
  keys of an object are distinct, so each assignment adds a property at the end, but
  for the key \<^verbatim>\<open>__proto__\<close>: that assignment goes to the setter inherited from
  \<^verbatim>\<open>Object.prototype\<close> and creates no property. (The setter makes an object or \<^verbatim>\<open>null\<close>
  the prototype of \<^verbatim>\<open>result\<close>, which the heap does not record, and ignores any other
  value.)
\<close>

definition assignAll :: "(string \<times> val) list \<Rightarrow> (string \<times> val) list" where
  "assignAll kvs = filter (\<lambda>e. fst e \<noteq> ''__proto__'') kvs"

text \<open>
  \<^verbatim>\<open>deepClone(obj)\<close>. It has no cycle detection and recurses forever on a cyclic value,
  so the model counts the nesting depth down and \<open>None\<close> is "deeper than the fuel".
  The object \<^verbatim>\<open>result\<close> is known to the call alone while its properties are written,
  and the loop writes to no other object: the model reads the properties of \<open>obj\<close>
  once, collects the values of \<^verbatim>\<open>result\<close> and stores the object when the call returns
  (so a clone gets its address after the clones nested in it). An array is filled at
  the indices \<open>0, 1, ...\<close> in turn and an object gets the keys of \<open>obj\<close> in their order
  by \<open>assignAll\<close>.
\<close>

fun deepClone :: "nat \<Rightarrow> heap \<Rightarrow> val \<Rightarrow> (heap \<times> val) option" where
  "deepClone 0 h obj = None"
| "deepClone (Suc n) h obj =
     (if falsy obj \<or> typeof obj \<noteq> ''object'' then Some (h, obj)
      else case obj of
        VRef a \<Rightarrow>
          (case lookup h a of
             None \<Rightarrow> None
           | Some (RegExp s) \<Rightarrow> Some (h, obj)
           | Some (Array xs) \<Rightarrow>
               (case cloneEach (\<lambda>h' v. deepClone n h' v) h xs of
                  None \<Rightarrow> None
                | Some (h', ys) \<Rightarrow> Some (alloc h' (Array ys)))
           | Some (Object kvs) \<Rightarrow>
               (case cloneEach (\<lambda>h' v. deepClone n h' v) h (map snd kvs) of
                  None \<Rightarrow> None
                | Some (h', ys) \<Rightarrow>
                    Some (alloc h' (Object (assignAll (zip (map fst kvs) ys))))))
      | _ \<Rightarrow> Some (h, obj))"


text \<open>No \<open>NaN\<close> occurs in the value, down to depth \<open>n\<close>.\<close>

fun nanFree :: "nat \<Rightarrow> heap \<Rightarrow> val \<Rightarrow> bool" where
  "nanFree n h VNaN = False"
| "nanFree n h (VRef a) =
     (case n of
        0 \<Rightarrow> True
      | Suc m \<Rightarrow>
          (case lookup h a of
             None \<Rightarrow> True
           | Some nd \<Rightarrow> list_all (nanFree m h) (children nd)))"
| "nanFree n h v = True"


section \<open>cloneAndChange\<close>

text \<open>
  The state of one call of \<^verbatim>\<open>cloneAndChange\<close>: the heap, the array
  \<^verbatim>\<open>encounteredObjects\<close> that all recursive calls share, and, as a record for the
  properties below, the arguments with which the changer has been called so far.
\<close>

record ccState =
  heap :: heap
  encounteredObjects :: "val list"
  changerCalls :: "val list"

text \<open>
  The two loops of \<^verbatim>\<open>_cloneAndChange\<close>, over the elements of an array and over the own
  properties of an object: the recursive call \<open>f\<close> on each value in turn, the state
  threaded through, and an exception ends the loop.
\<close>

fun cloneList ::
  "('s \<Rightarrow> val \<Rightarrow> (error + 's \<times> val) option) \<Rightarrow> 's \<Rightarrow> val list
    \<Rightarrow> (error + 's \<times> val list) option" where
  "cloneList f s [] = Some (Inr (s, []))"
| "cloneList f s (x # xs) =
     (case f s x of
        None \<Rightarrow> None
      | Some (Inl e) \<Rightarrow> Some (Inl e)
      | Some (Inr (s1, y)) \<Rightarrow>
          (case cloneList f s1 xs of
             None \<Rightarrow> None
           | Some (Inl e) \<Rightarrow> Some (Inl e)
           | Some (Inr (s2, ys)) \<Rightarrow> Some (Inr (s2, y # ys))))"

text \<open>
  \<^verbatim>\<open>_cloneAndChange(obj, changer, encounteredObjects)\<close>. The changer is a function of the
  value it is given and of the heap it can read; it writes nothing. \<open>VUndefined\<close> is its
  "no replacement". The recursion does not return on a cycle that goes through arrays
  only, so the model counts the nesting depth down: \<open>None\<close> is "deeper than the fuel",
  \<open>Some (Inl RecursiveStructure)\<close> is the exception thrown, \<open>Some (Inr (s, v))\<close> is the
  value returned with the state left behind. As in \<open>deepClone\<close>, the arrays \<^verbatim>\<open>r1\<close> and
  objects \<^verbatim>\<open>r2\<close> under construction are stored when their call returns; here \<^verbatim>\<open>r2\<close> is
  given every key of \<open>obj\<close>, a key \<^verbatim>\<open>__proto__\<close> is not told apart.
\<close>

fun cloneAndChange' ::
  "nat \<Rightarrow> (heap \<Rightarrow> val \<Rightarrow> val) \<Rightarrow> ccState \<Rightarrow> val \<Rightarrow> (error + ccState \<times> val) option" where
  "cloneAndChange' 0 changer s obj = None"
| "cloneAndChange' (Suc n) changer s obj =
     (if obj = VNull \<or> obj = VUndefined then Some (Inr (s, obj))
      else
        let changed = changer (heap s) obj;
            s1 = s\<lparr>changerCalls := changerCalls s @ [obj]\<rparr>
        in if changed \<noteq> VUndefined then Some (Inr (s1, changed))
           else if isArray (heap s1) obj then
             (case cloneList (\<lambda>s' v. cloneAndChange' n changer s' v) s1 (elems (heap s1) obj) of
                None \<Rightarrow> None
              | Some (Inl e) \<Rightarrow> Some (Inl e)
              | Some (Inr (s2, r1)) \<Rightarrow>
                  Some (Inr (s2\<lparr>heap := fst (alloc (heap s2) (Array r1))\<rparr>,
                             snd (alloc (heap s2) (Array r1)))))
           else if objectLiteral (heap s1) obj then
             (if obj \<in> set (encounteredObjects s1) then Some (Inl RecursiveStructure)
              else
                let s2 = s1\<lparr>encounteredObjects := encounteredObjects s1 @ [obj]\<rparr>
                in case cloneList (\<lambda>s' v. cloneAndChange' n changer s' v) s2
                          (map snd (props (heap s2) obj)) of
                     None \<Rightarrow> None
                   | Some (Inl e) \<Rightarrow> Some (Inl e)
                   | Some (Inr (s3, vs)) \<Rightarrow>
                       let s4 = s3\<lparr>encounteredObjects := butlast (encounteredObjects s3)\<rparr>;
                           r2 = Object (zip (keys (heap s1) obj) vs)
                       in Some (Inr (s4\<lparr>heap := fst (alloc (heap s4) r2)\<rparr>,
                                     snd (alloc (heap s4) r2))))
           else Some (Inr (s1, obj)))"

text \<open>\<^verbatim>\<open>cloneAndChange(obj, changer)\<close> starts with an empty \<^verbatim>\<open>encounteredObjects\<close>.\<close>

definition cloneAndChange ::
  "nat \<Rightarrow> (heap \<Rightarrow> val \<Rightarrow> val) \<Rightarrow> heap \<Rightarrow> val \<Rightarrow> (error + ccState \<times> val) option" where
  "cloneAndChange n changer h obj =
     cloneAndChange' n changer \<lparr>heap = h, encounteredObjects = [], changerCalls = []\<rparr> obj"

text \<open>
  The traversal as the specification words it, for comparison with the code: no shared
  array, each call is given the list \<open>path\<close> of the plain objects it is nested in, those
  whose properties are being copied, and the error is raised exactly at a plain object
  that is on this list. Its state is the heap and the calls of the changer.
\<close>

fun cloneOnPath ::
  "nat \<Rightarrow> (heap \<Rightarrow> val \<Rightarrow> val) \<Rightarrow> val list \<Rightarrow> heap \<times> val list \<Rightarrow> val
    \<Rightarrow> (error + (heap \<times> val list) \<times> val) option" where
  "cloneOnPath 0 changer path t obj = None"
| "cloneOnPath (Suc n) changer path t obj =
     (if obj = VNull \<or> obj = VUndefined then Some (Inr (t, obj))
      else
        let changed = changer (fst t) obj;
            t1 = (fst t, snd t @ [obj])
        in if changed \<noteq> VUndefined then Some (Inr (t1, changed))
           else if isArray (fst t1) obj then
             (case cloneList (\<lambda>t' v. cloneOnPath n changer path t' v) t1 (elems (fst t1) obj) of
                None \<Rightarrow> None
              | Some (Inl e) \<Rightarrow> Some (Inl e)
              | Some (Inr (t2, r1)) \<Rightarrow>
                  Some (Inr ((fst (alloc (fst t2) (Array r1)), snd t2),
                             snd (alloc (fst t2) (Array r1)))))
           else if objectLiteral (fst t1) obj then
             (if obj \<in> set path then Some (Inl RecursiveStructure)
              else
                case cloneList (\<lambda>t' v. cloneOnPath n changer (path @ [obj]) t' v) t1
                       (map snd (props (fst t1) obj)) of
                  None \<Rightarrow> None
                | Some (Inl e) \<Rightarrow> Some (Inl e)
                | Some (Inr (t3, vs)) \<Rightarrow>
                    let r2 = Object (zip (keys (fst t1) obj) vs)
                    in Some (Inr ((fst (alloc (fst t3) r2), snd t3), snd (alloc (fst t3) r2))))
           else Some (Inr (t1, obj)))"

text \<open>The result of the traversal on a path, as a result of the code whose
  \<^verbatim>\<open>encounteredObjects\<close> is \<open>enc\<close> when it returns.\<close>

fun withStack ::
  "val list \<Rightarrow> (error + (heap \<times> val list) \<times> 'a) option \<Rightarrow> (error + ccState \<times> 'a) option" where
  "withStack enc None = None"
| "withStack enc (Some (Inl e)) = Some (Inl e)"
| "withStack enc (Some (Inr ((h, calls), v))) =
     Some (Inr (\<lparr>heap = h, encounteredObjects = enc, changerCalls = calls\<rparr>, v))"

section \<open>deepFreeze\<close>

text \<open>
  \<^verbatim>\<open>Object.freeze\<close> marks an object and changes none of its properties, so the state of
  \<^verbatim>\<open>deepFreeze\<close> is the set of the addresses of the frozen objects, beside a heap that
  stays as it is.
\<close>

type_synonym frozen = "addr set"

text \<open>\<^verbatim>\<open>Object.isFrozen(v)\<close>: a primitive counts as frozen, a function is an object and is
  not frozen.\<close>

fun isFrozen :: "frozen \<Rightarrow> val \<Rightarrow> bool" where
  "isFrozen F (VRef a) = (a \<in> F)"
| "isFrozen F (VFun f) = False"
| "isFrozen F v = True"

text \<open>\<^verbatim>\<open>Object.freeze(v)\<close>\<close>

fun freeze :: "frozen \<Rightarrow> val \<Rightarrow> frozen" where
  "freeze F (VRef a) = insert a F"
| "freeze F v = F"

text \<open>The values \<^verbatim>\<open>obj[key]\<close> of the own enumerable keys of \<open>obj\<close>, in the order of
  \<^verbatim>\<open>for (const key in obj)\<close>.\<close>

fun ownValues :: "heap \<Rightarrow> val \<Rightarrow> val list" where
  "ownValues h (VRef a) = (case lookup h a of Some nd \<Rightarrow> children nd | None \<Rightarrow> [])"
| "ownValues h v = []"

text \<open>The inner loop: the values that are pushed on the queue, those of type
  \<^verbatim>\<open>object\<close> that are not frozen once \<open>obj\<close> is.\<close>

definition toPush :: "heap \<Rightarrow> frozen \<Rightarrow> val \<Rightarrow> val list" where
  "toPush h F obj = filter (\<lambda>prop. typeof prop = ''object'' \<and> \<not> isFrozen F prop) (ownValues h obj)"

text \<open>
  The measure of the \<^verbatim>\<open>while\<close> loop. Each round either freezes an object that was not
  frozen, and then fewer of the addresses that the heap or the queue mention are left
  unfrozen; or it takes an object that is frozen already from the front of the queue,
  and then, since only unfrozen objects are added at the back, the frozen objects in
  front of the first unfrozen one are one fewer.
\<close>

fun addrsOf :: "val list \<Rightarrow> addr list" where
  "addrsOf [] = []"
| "addrsOf (VRef a # vs) = a # addrsOf vs"
| "addrsOf (v # vs) = addrsOf vs"

definition heapRefs :: "heap \<Rightarrow> addr set" where
  "heapRefs h = (\<Union>nd \<in> set h. set (addrsOf (children nd)))"

definition unfrozenCount :: "heap \<Rightarrow> frozen \<Rightarrow> val list \<Rightarrow> nat" where
  "unfrozenCount h F stack = card ((heapRefs h \<union> set (addrsOf stack)) - F)"

fun settled :: "frozen \<Rightarrow> val \<Rightarrow> bool" where
  "settled F (VRef a) = (a \<in> F)"
| "settled F v = True"

definition settledPrefix :: "frozen \<Rightarrow> val list \<Rightarrow> nat" where
  "settledPrefix F stack = length (takeWhile (settled F) stack)"

lemma set_addrsOf: "set (addrsOf vs) = {a. VRef a \<in> set vs}"
  by (induction vs rule: addrsOf.induct) auto

lemma finite_heapRefs: "finite (heapRefs h)"
  by (simp add: heapRefs_def)

lemma ownValues_heapRefs: "VRef b \<in> set (ownValues h obj) \<Longrightarrow> b \<in> heapRefs h"
  by (cases obj) (auto simp: heapRefs_def set_addrsOf lookup_def split: if_splits)

lemma toPush_unsettled: "v \<in> set (toPush h F obj) \<Longrightarrow> \<not> settled F v"
  by (cases v) (auto simp: toPush_def)

lemma toPush_refs: "set (addrsOf (toPush h F obj)) \<subseteq> heapRefs h"
  by (auto simp: set_addrsOf toPush_def ownValues_heapRefs)

lemma settledPrefix_push:
  "(\<And>v. v \<in> set ps \<Longrightarrow> \<not> settled F v) \<Longrightarrow> settledPrefix F (rest @ ps) = settledPrefix F rest"
proof (induction rest)
  case Nil
  then show ?case by (cases ps) (simp_all add: settledPrefix_def)
next
  case (Cons v rest)
  then show ?case by (simp add: settledPrefix_def)
qed

lemma settled_freeze: "settled F obj \<Longrightarrow> freeze F obj = F"
  by (cases obj) auto

lemma deepFreeze_step_decreases:
  "unfrozenCount h (freeze F obj) (rest @ toPush h (freeze F obj) obj) < unfrozenCount h F (obj # rest)
   \<or> (unfrozenCount h (freeze F obj) (rest @ toPush h (freeze F obj) obj) = unfrozenCount h F (obj # rest)
      \<and> settledPrefix (freeze F obj) (rest @ toPush h (freeze F obj) obj) < settledPrefix F (obj # rest))"
proof (cases "settled F obj")
  case True
  let ?ps = "toPush h F obj"
  have F: "freeze F obj = F" using True by (rule settled_freeze)
  have k: "settledPrefix F (rest @ ?ps) < settledPrefix F (obj # rest)"
    using True toPush_unsettled [of _ h F obj]
    by (simp add: settledPrefix_push) (simp add: settledPrefix_def)
  have "(heapRefs h \<union> set (addrsOf (rest @ ?ps))) - F \<subseteq> (heapRefs h \<union> set (addrsOf (obj # rest))) - F"
    using toPush_refs [of h F obj] by (auto simp: set_addrsOf)
  then have "unfrozenCount h F (rest @ ?ps) \<le> unfrozenCount h F (obj # rest)"
    unfolding unfrozenCount_def by (intro card_mono) (simp_all add: finite_heapRefs)
  then show ?thesis using k F by auto
next
  case False
  then obtain a where a: "obj = VRef a" "a \<notin> F" by (cases obj) auto
  let ?F = "insert a F"
  let ?ps = "toPush h ?F obj"
  have "(heapRefs h \<union> set (addrsOf (rest @ ?ps))) - ?F \<subset> (heapRefs h \<union> set (addrsOf (obj # rest))) - F"
    using toPush_refs [of h ?F obj] a by (auto simp: set_addrsOf)
  then have "unfrozenCount h ?F (rest @ ?ps) < unfrozenCount h F (obj # rest)"
    unfolding unfrozenCount_def by (intro psubset_card_mono) (simp_all add: finite_heapRefs)
  then show ?thesis using a by simp
qed

text \<open>The \<^verbatim>\<open>while\<close> loop over the queue \<^verbatim>\<open>stack\<close>: \<^verbatim>\<open>shift\<close> takes the first element,
  \<^verbatim>\<open>push\<close> adds at the end. It is defined on every heap, cyclic or not.\<close>

function deepFreezeLoop :: "heap \<Rightarrow> frozen \<Rightarrow> val list \<Rightarrow> frozen" where
  "deepFreezeLoop h F [] = F"
| "deepFreezeLoop h F (obj # stack) =
     deepFreezeLoop h (freeze F obj) (stack @ toPush h (freeze F obj) obj)"
  by pat_completeness auto
termination
proof (relation "measures [\<lambda>(h, F, stack). unfrozenCount h F stack,
                          \<lambda>(h, F, stack). settledPrefix F stack]")
  show "wf (measures [\<lambda>(h, F, stack). unfrozenCount h F stack,
                          \<lambda>(h, F, stack). settledPrefix F stack])"
    by simp
next
  fix h F obj stack
  show "((h, freeze F obj, stack @ toPush h (freeze F obj) obj), (h, F, obj # stack))
      \<in> measures [\<lambda>(h, F, stack). unfrozenCount h F stack,
                          \<lambda>(h, F, stack). settledPrefix F stack]"
    using deepFreeze_step_decreases [of h F obj stack] by auto
qed

text \<open>\<^verbatim>\<open>deepFreeze(obj)\<close>: the set of frozen objects it leaves, and the value it returns,
  which is the parameter \<open>obj\<close>.\<close>

definition deepFreeze :: "heap \<Rightarrow> frozen \<Rightarrow> val \<Rightarrow> frozen \<times> val" where
  "deepFreeze h F obj =
     (if falsy obj \<or> typeof obj \<noteq> ''object'' then (F, obj)
      else (deepFreezeLoop h F [obj], obj))"

text \<open>\<open>reachesUnfrozen h F r b\<close>: the object \<open>b\<close> is reached from the object \<open>r\<close> through own
  enumerable keys, by a path on which no object after \<open>r\<close> is in \<open>F\<close>. With \<open>F\<close> empty it
  is "reachable from \<open>r\<close>".\<close>

inductive reachesUnfrozen :: "heap \<Rightarrow> frozen \<Rightarrow> addr \<Rightarrow> addr \<Rightarrow> bool" for h F r where
  root: "reachesUnfrozen h F r r"
| step: "reachesUnfrozen h F r a \<Longrightarrow> VRef b \<in> set (ownValues h (VRef a)) \<Longrightarrow> b \<notin> F
    \<Longrightarrow> reachesUnfrozen h F r b"

section \<open>safeStringify\<close>















section \<open>mixin\<close>

text \<open>
  \<^verbatim>\<open>destination[key] = value\<close> on a plain object that is not frozen: the value of an own
  property is replaced in place, a new property goes to the end of the enumeration
  order. The key \<^verbatim>\<open>__proto__\<close> is not told apart; \<open>mergeable\<close> below rules it out.
\<close>

fun setProp :: "heap \<Rightarrow> val \<Rightarrow> string \<Rightarrow> val \<Rightarrow> heap" where
  "setProp h (VRef a) k v =
     (case lookup h a of
        Some (Object kvs) \<Rightarrow> h[a := Object (AList.update k v kvs)]
      | _ \<Rightarrow> h)"
| "setProp h d k v = h"

text \<open>
  The body of \<^verbatim>\<open>Object.keys(source).forEach\<close>, key by key, on the heap left by the key
  before. \<open>f\<close> is the recursive call of \<^verbatim>\<open>mixin\<close>, whose result is dropped. \<^verbatim>\<open>key in
  destination\<close> holds for an inherited member as well as for an own property, and the
  whole branch of a key that is there does nothing unless \<^verbatim>\<open>overwrite\<close> is set.
\<close>

fun mixinKeys ::
  "(heap \<Rightarrow> val \<Rightarrow> val \<Rightarrow> (heap \<times> val) option) \<Rightarrow> heap \<Rightarrow> val \<Rightarrow> val \<Rightarrow> bool \<Rightarrow> string list
    \<Rightarrow> heap option" where
  "mixinKeys f h destination source overwrite [] = Some h"
| "mixinKeys f h destination source overwrite (key # ks) =
     (if hasProp h destination key then
        (if overwrite then
           (if objectLiteral h (getProp h destination key) \<and> objectLiteral h (getProp h source key)
            then
              (case f h (getProp h destination key) (getProp h source key) of
                 None \<Rightarrow> None
               | Some (h', r) \<Rightarrow> mixinKeys f h' destination source overwrite ks)
            else
              mixinKeys f (setProp h destination key (getProp h source key))
                destination source overwrite ks)
         else mixinKeys f h destination source overwrite ks)
      else
        mixinKeys f (setProp h destination key (getProp h source key))
          destination source overwrite ks)"

text \<open>
  \<^verbatim>\<open>mixin(destination, source, overwrite)\<close>, where the caller passes \<open>True\<close> for an
  omitted \<^verbatim>\<open>overwrite\<close>. The number bounds the depth of the recursion; \<open>None\<close> is a
  merge deeper than that.
\<close>

fun mixin :: "nat \<Rightarrow> heap \<Rightarrow> val \<Rightarrow> val \<Rightarrow> bool \<Rightarrow> (heap \<times> val) option" where
  "mixin 0 h destination source overwrite = None"
| "mixin (Suc n) h destination source overwrite =
     (if \<not> objectLiteral h destination then Some (h, source)
      else if objectLiteral h source then
        (case mixinKeys (\<lambda>h' d s. mixin n h' d s overwrite) h destination source overwrite
                (keys h source) of
           None \<Rightarrow> None
         | Some h' \<Rightarrow> Some (h', destination))
      else Some (h, destination))"













section \<open>Properties of equals\<close>

lemma allTests_cong:
  "(\<And>x. x \<in> set xs \<Longrightarrow> f x = g x) \<Longrightarrow> allTests f xs = allTests g xs"
  by (induction xs) (auto split: option.splits bool.splits)

lemma allTests_returns:
  "(\<And>x. x \<in> set xs \<Longrightarrow> t x \<noteq> None) \<Longrightarrow> allTests t xs \<noteq> None"
  by (induction xs) (auto split: option.splits bool.splits)

lemma allTests_True_iff:
  "allTests t xs = Some True \<longleftrightarrow> (\<forall>x \<in> set xs. t x = Some True)"
  by (induction xs) (auto split: option.splits bool.splits)

lemma strictEq_sym: "strictEq a b = strictEq b a"
  by (auto simp: strictEq_def)

lemma equalsKeys_iff: "equalsKeys ks ks' \<longleftrightarrow> ks = ks'"
  by (auto simp: equalsKeys_def strictEq_def list_all2_eq [symmetric] list_all2_lengthD
      intro: list_all2_mono)

lemma equals_sym: "equals n h a b = equals n h b a"
proof (induction n arbitrary: a b)
  case 0
  show ?case by simp
next
  case (Suc n)
  have arr: "allTests (\<lambda>i. equals n h (elems h a ! i) (elems h b ! i)) is
      = allTests (\<lambda>i. equals n h (elems h b ! i) (elems h a ! i)) is" for "is"
    by (rule allTests_cong) (rule Suc.IH)
  have obj: "allTests (\<lambda>k. equals n h (getProp h a k) (getProp h b k)) ks
      = allTests (\<lambda>k. equals n h (getProp h b k) (getProp h a k)) ks" for ks
    by (rule allTests_cong) (rule Suc.IH)
  show ?case
    by (simp add: strictEq_sym [of a b] equalsKeys_iff Let_def arr obj eq_commute [of "typeof a"])
qed

lemma elems_depth:
  "depthAtMost (Suc m) h v \<Longrightarrow> i < length (elems h v) \<Longrightarrow> depthAtMost m h (elems h v ! i)"
  by (cases v) (auto simp: list_all_length split: option.splits node.splits)

lemma getProp_depth:
  "depthAtMost (Suc m) h v \<Longrightarrow> depthAtMost m h (getProp h v k)"
  by (cases v) (force simp: getProp_def list_all_iff dest!: map_of_SomeD
      split: option.splits node.splits)+

lemma if_returns: "x \<noteq> None \<Longrightarrow> y \<noteq> None \<Longrightarrow> (if c then x else y) \<noteq> None"
  by simp

lemma equals_Suc_returns:
  assumes "allTests (\<lambda>i. equals n h (elems h a ! i) (elems h b ! i))
             [0 ..< length (elems h a)] \<noteq> None"
    and "allTests (\<lambda>k. equals n h (getProp h a k) (getProp h b k)) (sort (keys h a)) \<noteq> None"
  shows "equals (Suc n) h a b \<noteq> None"
  unfolding equals.simps(2) Let_def by (intro if_returns assms) simp_all

lemma depth0_leaf: "depthAtMost 0 h a \<Longrightarrow> elems h a = [] \<and> keys h a = []"
  by (cases a) (simp_all add: keys_def)

text \<open>On a value nested at most \<open>n\<close> deep, \<open>equals\<close> returns within \<open>n + 1\<close> levels of
  recursion, whatever the other value is.\<close>

lemma equals_returns: "depthAtMost n h a \<Longrightarrow> equals (Suc n) h a b \<noteq> None"
proof (induction n arbitrary: a b)
  case 0
  then show ?case
    by (intro equals_Suc_returns) (simp_all add: depth0_leaf)
next
  case (Suc n)
  show ?case
  proof (rule equals_Suc_returns)
    show "allTests (\<lambda>i. equals (Suc n) h (elems h a ! i) (elems h b ! i))
       [0 ..< length (elems h a)] \<noteq> None"
      using Suc.prems by (intro allTests_returns Suc.IH elems_depth) simp_all
    show "allTests (\<lambda>k. equals (Suc n) h (getProp h a k) (getProp h b k)) (sort (keys h a)) \<noteq> None"
      using Suc.prems by (intro allTests_returns Suc.IH getProp_depth)
  qed
qed

lemma lookup_update:
  "lookup (h[b := nd]) a = (if a = b \<and> b < length h then Some nd else lookup h a)"
  by (auto simp: lookup_def)

lemma reordered_object:
  assumes "lookup h b = Some (Object kvs)" "distinct (map fst kvs)"
    "distinct (map fst kvs')" "set kvs' = set kvs"
  shows "isArray (h[b := Object kvs']) v = isArray h v"
    and "elems (h[b := Object kvs']) v = elems h v"
    and "sort (keys (h[b := Object kvs']) v) = sort (keys h v)"
    and "getProp (h[b := Object kvs']) v k = getProp h v k"
proof -
  have m: "map_of kvs' = map_of kvs"
    using assms by (simp add: map_of_inject_set)
  have "set (map fst kvs') = set (map fst kvs)"
    using assms(4) by simp
  then have s: "sort (map fst kvs') = sort (map fst kvs)"
    using assms(2,3) by (intro sorted_distinct_set_unique) simp_all
  show "isArray (h[b := Object kvs']) v = isArray h v"
    using assms(1) by (cases v) (auto simp: lookup_update split: option.splits node.splits)
  show "elems (h[b := Object kvs']) v = elems h v"
    using assms(1) by (cases v) (auto simp: lookup_update split: option.splits node.splits)
  show "sort (keys (h[b := Object kvs']) v) = sort (keys h v)"
    using assms(1) s
    by (cases v) (auto simp: keys_def lookup_update split: option.splits node.splits)
  show "getProp (h[b := Object kvs']) v k = getProp h v k"
    using assms(1) m
    by (cases v) (auto simp: getProp_def lookup_update split: option.splits node.splits)
qed

lemma equals_reordered:
  assumes "lookup h b = Some (Object kvs)" "distinct (map fst kvs)"
    "distinct (map fst kvs')" "set kvs' = set kvs"
  shows "equals n (h[b := Object kvs']) x y = equals n h x y"
proof (induction n arbitrary: x y)
  case 0
  show ?case by simp
next
  case (Suc n)
  note ro = reordered_object [OF assms]
  show ?case
    by (simp add: ro Let_def Suc.IH cong: if_cong)
qed

lemma equals_arrays:
  assumes "lookup h a = Some (Array xs)" "lookup h b = Some (Array ys)"
  shows "equals (Suc n) h (VRef a) (VRef b) = Some True \<longleftrightarrow>
     a = b \<or> (length xs = length ys \<and> (\<forall>i < length xs. equals n h (xs ! i) (ys ! i) = Some True))"
  using assms by (auto simp: strictEq_def allTests_True_iff)

lemma sort_eq_set_eq:
  "distinct (ks :: string list) \<Longrightarrow> distinct ks' \<Longrightarrow> sort ks = sort ks' \<longleftrightarrow> set ks = set ks'"
proof
  assume "sort ks = sort ks'"
  then have "set (sort ks) = set (sort ks')" by simp
  then show "set ks = set ks'" by simp
next
  assume "distinct ks" "distinct ks'" "set ks = set ks'"
  then show "sort ks = sort ks'"
    by (intro sorted_distinct_set_unique) simp_all
qed

lemma getProp_entry_own:
  "lookup h a = Some (Object kvs) \<Longrightarrow> k \<in> set (map fst kvs) \<Longrightarrow>
     getProp h (VRef a) k = the (map_of kvs k)"
proof -
  assume l: "lookup h a = Some (Object kvs)" and k: "k \<in> set (map fst kvs)"
  from k obtain x where "map_of kvs k = Some x"
    using map_of_eq_None_iff [of kvs k] by (cases "map_of kvs k") auto
  then show ?thesis using l by (simp add: getProp_def props.simps)
qed

lemma equals_objects_iff:
  assumes "lookup h p = Some (Object ps)" "lookup h q = Some (Object qs)"
    "distinct (map fst ps)" "distinct (map fst qs)"
  shows "equals (Suc n) h (VRef p) (VRef q) = Some True \<longleftrightarrow>
     p = q \<or> (set (map fst ps) = set (map fst qs)
        \<and> (\<forall>k \<in> set (map fst ps). equals n h (the (map_of ps k)) (the (map_of qs k)) = Some True))"
proof (cases "p = q")
  case True
  then show ?thesis by (simp add: strictEq_def)
next
  case False
  have s: "sort (map fst ps) = sort (map fst qs) \<longleftrightarrow> set (map fst ps) = set (map fst qs)"
    using assms(3,4) by (rule sort_eq_set_eq)
  have e: "equals (Suc n) h (VRef p) (VRef q) =
      (if sort (map fst ps) \<noteq> sort (map fst qs) then Some False
       else allTests (\<lambda>k. equals n h (getProp h (VRef p) k) (getProp h (VRef q) k))
              (sort (map fst ps)))"
    using assms(1,2) False by (simp add: strictEq_def keys_def equalsKeys_iff Let_def props.simps)
  show ?thesis
  proof (cases "set (map fst ps) = set (map fst qs)")
    case ne: False
    then show ?thesis using e s False by simp
  next
    case eq: True
    have "equals n h (getProp h (VRef p) k) (getProp h (VRef q) k)
        = equals n h (the (map_of ps k)) (the (map_of qs k))" if "k \<in> set (map fst ps)" for k
      using getProp_entry_own [OF assms(1) that] getProp_entry_own [OF assms(2), of k] that eq
      by simp
    then show ?thesis
      using e s eq False by (simp add: allTests_True_iff)
  qed
qed

lemma equals_keys_first:
  assumes "lookup h p = Some (Object ps)" "lookup h q = Some (Object qs)"
    "set (map fst ps) \<noteq> set (map fst qs)"
  shows "equals (Suc n) h (VRef p) (VRef q) = Some False"
proof -
  have "sort (map fst ps) \<noteq> sort (map fst qs)"
    using assms(3) by (metis set_sort)
  moreover have "p \<noteq> q" using assms by auto
  ultimately show ?thesis
    using assms(1,2) by (simp add: strictEq_def keys_def equalsKeys_iff Let_def props.simps)
qed

lemma equals_length_first:
  assumes "lookup h a = Some (Array xs)" "lookup h c = Some (Array ys)" "length xs \<noteq> length ys"
  shows "equals (Suc n) h (VRef a) (VRef c) = Some False"
proof -
  have "a \<noteq> c" using assms by auto
  then show ?thesis using assms by (simp add: strictEq_def)
qed

text \<open>
  C4. \<open>equals\<close> does not depend on the order in which the keys of a plain object were
  inserted: listing the properties of an object in another order changes no result.
  Two plain objects are equal exactly when they are the same object, or have the same
  set of keys and equal values at each key; the sorted key lists are compared before
  any value is, so two objects with different key sets are unequal whatever their
  values are. Two arrays are equal exactly when they are the same array, or have the
  same length and equal elements at each index; the lengths are compared first.
  \<^verbatim>\<open>equals({a:1,b:2}, {b:2,a:1})\<close> is true, \<^verbatim>\<open>equals([1,2], [2,1])\<close> is false and
  \<^verbatim>\<open>equals([1,2,3], [1,2,3])\<close> is true; \<^verbatim>\<open>equals({a:1,b:2}, {b:3,a:1})\<close> and
  \<^verbatim>\<open>equals({a:1,b:2}, {a:1})\<close> are false.
\<close>

theorem equals_objects_unordered_arrays_ordered:
  "(lookup h b = Some (Object kvs) \<and> distinct (map fst kvs) \<and> distinct (map fst kvs')
      \<and> set kvs' = set kvs
     \<longrightarrow> equals n (h[b := Object kvs']) x y = equals n h x y)
   \<and> (lookup h a = Some (Array xs) \<and> lookup h c = Some (Array ys)
     \<longrightarrow> (equals (Suc n) h (VRef a) (VRef c) = Some True \<longleftrightarrow>
          a = c \<or> (length xs = length ys
            \<and> (\<forall>i < length xs. equals n h (xs ! i) (ys ! i) = Some True))))
   \<and> (lookup h a' = Some (Array xs') \<and> lookup h c' = Some (Array ys')
        \<and> length xs' \<noteq> length ys'
     \<longrightarrow> equals (Suc n) h (VRef a') (VRef c') = Some False)
   \<and> (lookup h p = Some (Object ps) \<and> lookup h q = Some (Object qs)
        \<and> distinct (map fst ps) \<and> distinct (map fst qs)
     \<longrightarrow> (equals (Suc n) h (VRef p) (VRef q) = Some True \<longleftrightarrow>
          p = q \<or> (set (map fst ps) = set (map fst qs)
            \<and> (\<forall>k \<in> set (map fst ps).
                  equals n h (the (map_of ps k)) (the (map_of qs k)) = Some True))))
   \<and> (lookup h p' = Some (Object ps') \<and> lookup h q' = Some (Object qs')
        \<and> set (map fst ps') \<noteq> set (map fst qs')
     \<longrightarrow> equals (Suc n) h (VRef p') (VRef q') = Some False)
   \<and> equals 2 [Object [(''a'', VNum 1), (''b'', VNum 2)],
                Object [(''b'', VNum 2), (''a'', VNum 1)]] (VRef 0) (VRef 1) = Some True
   \<and> equals 2 [Array [VNum 1, VNum 2], Array [VNum 2, VNum 1]] (VRef 0) (VRef 1) = Some False
   \<and> equals 2 [Array [VNum 1, VNum 2, VNum 3], Array [VNum 1, VNum 2, VNum 3]]
        (VRef 0) (VRef 1) = Some True
   \<and> equals 2 [Object [(''a'', VNum 1), (''b'', VNum 2)],
                Object [(''b'', VNum 3), (''a'', VNum 1)]] (VRef 0) (VRef 1) = Some False
   \<and> equals 2 [Object [(''a'', VNum 1), (''b'', VNum 2)],
                Object [(''a'', VNum 1)]] (VRef 0) (VRef 1) = Some False"
proof (intro conjI impI)
  show "equals 2 [Object [(''a'', VNum 1), (''b'', VNum 2)],
                Object [(''b'', VNum 2), (''a'', VNum 1)]] (VRef 0) (VRef 1) = Some True"
    by code_simp
  show "equals 2 [Array [VNum 1, VNum 2], Array [VNum 2, VNum 1]] (VRef 0) (VRef 1) = Some False"
    by code_simp
  show "equals 2 [Array [VNum 1, VNum 2, VNum 3], Array [VNum 1, VNum 2, VNum 3]]
        (VRef 0) (VRef 1) = Some True"
    by code_simp
  show "equals 2 [Object [(''a'', VNum 1), (''b'', VNum 2)],
                Object [(''b'', VNum 3), (''a'', VNum 1)]] (VRef 0) (VRef 1) = Some False"
    by code_simp
  show "equals 2 [Object [(''a'', VNum 1), (''b'', VNum 2)],
                Object [(''a'', VNum 1)]] (VRef 0) (VRef 1) = Some False"
    by code_simp
next
  assume "lookup h b = Some (Object kvs) \<and> distinct (map fst kvs) \<and> distinct (map fst kvs')
      \<and> set kvs' = set kvs"
  then show "equals n (h[b := Object kvs']) x y = equals n h x y"
    by (simp add: equals_reordered)
next
  assume "lookup h a = Some (Array xs) \<and> lookup h c = Some (Array ys)"
  then show "equals (Suc n) h (VRef a) (VRef c) = Some True \<longleftrightarrow>
          a = c \<or> (length xs = length ys
            \<and> (\<forall>i < length xs. equals n h (xs ! i) (ys ! i) = Some True))"
    by (intro equals_arrays) simp_all
next
  assume "lookup h a' = Some (Array xs') \<and> lookup h c' = Some (Array ys')
        \<and> length xs' \<noteq> length ys'"
  then show "equals (Suc n) h (VRef a') (VRef c') = Some False"
    by (intro equals_length_first [of h a' xs' c' ys']) simp_all
next
  assume "lookup h p = Some (Object ps) \<and> lookup h q = Some (Object qs)
        \<and> distinct (map fst ps) \<and> distinct (map fst qs)"
  then show "equals (Suc n) h (VRef p) (VRef q) = Some True \<longleftrightarrow>
          p = q \<or> (set (map fst ps) = set (map fst qs)
            \<and> (\<forall>k \<in> set (map fst ps).
                  equals n h (the (map_of ps k)) (the (map_of qs k)) = Some True))"
    by (intro equals_objects_iff) simp_all
next
  assume "lookup h p' = Some (Object ps') \<and> lookup h q' = Some (Object qs')
        \<and> set (map fst ps') \<noteq> set (map fst qs')"
  then show "equals (Suc n) h (VRef p') (VRef q') = Some False"
    by (intro equals_keys_first [of h p' ps' q' qs']) simp_all
qed

theorem equals_objects_unordered_arrays_ordered_witness:
  "lookup [Array [VNum 1], Object [(''a'', VNum 1), (''b'', VNum 2)], Array [VNum 1], Array [],
           Object [(''b'', VNum 2), (''a'', VNum 1)], Object [(''a'', VNum 1)]] 1
      = Some (Object [(''a'', VNum 1), (''b'', VNum 2)])
   \<and> distinct (map fst [(''a'', VNum 1), (''b'', VNum 2)])
   \<and> distinct (map fst [(''b'', VNum 2), (''a'', VNum 1)])
   \<and> set [(''b'', VNum 2), (''a'', VNum 1)] = set [(''a'', VNum 1), (''b'', VNum 2)]
   \<and> equals 3 ([Array [VNum 1], Object [(''a'', VNum 1), (''b'', VNum 2)], Array [VNum 1], Array [],
           Object [(''b'', VNum 2), (''a'', VNum 1)], Object [(''a'', VNum 1)]]
         [1 := Object [(''b'', VNum 2), (''a'', VNum 1)]]) (VRef 1) (VRef 1)
     = equals 3 [Array [VNum 1], Object [(''a'', VNum 1), (''b'', VNum 2)], Array [VNum 1], Array [],
           Object [(''b'', VNum 2), (''a'', VNum 1)], Object [(''a'', VNum 1)]]
         (VRef 1) (VRef 1)
   \<and> lookup [Array [VNum 1], Object [(''a'', VNum 1), (''b'', VNum 2)], Array [VNum 1], Array [],
           Object [(''b'', VNum 2), (''a'', VNum 1)], Object [(''a'', VNum 1)]] 0
      = Some (Array [VNum 1])
   \<and> lookup [Array [VNum 1], Object [(''a'', VNum 1), (''b'', VNum 2)], Array [VNum 1], Array [],
           Object [(''b'', VNum 2), (''a'', VNum 1)], Object [(''a'', VNum 1)]] 2
      = Some (Array [VNum 1])
   \<and> equals (Suc 3) [Array [VNum 1], Object [(''a'', VNum 1), (''b'', VNum 2)], Array [VNum 1],
           Array [], Object [(''b'', VNum 2), (''a'', VNum 1)], Object [(''a'', VNum 1)]]
        (VRef 0) (VRef 2) = Some True
   \<and> lookup [Array [VNum 1], Object [(''a'', VNum 1), (''b'', VNum 2)], Array [VNum 1], Array [],
           Object [(''b'', VNum 2), (''a'', VNum 1)], Object [(''a'', VNum 1)]] 3
      = Some (Array [])
   \<and> length [VNum 1] \<noteq> length ([] :: val list)
   \<and> equals (Suc 3) [Array [VNum 1], Object [(''a'', VNum 1), (''b'', VNum 2)], Array [VNum 1],
           Array [], Object [(''b'', VNum 2), (''a'', VNum 1)], Object [(''a'', VNum 1)]]
        (VRef 0) (VRef 3) = Some False
   \<and> lookup [Array [VNum 1], Object [(''a'', VNum 1), (''b'', VNum 2)], Array [VNum 1], Array [],
           Object [(''b'', VNum 2), (''a'', VNum 1)], Object [(''a'', VNum 1)]] 4
      = Some (Object [(''b'', VNum 2), (''a'', VNum 1)])
   \<and> equals (Suc 3) [Array [VNum 1], Object [(''a'', VNum 1), (''b'', VNum 2)], Array [VNum 1],
           Array [], Object [(''b'', VNum 2), (''a'', VNum 1)], Object [(''a'', VNum 1)]]
        (VRef 1) (VRef 4) = Some True
   \<and> lookup [Array [VNum 1], Object [(''a'', VNum 1), (''b'', VNum 2)], Array [VNum 1], Array [],
           Object [(''b'', VNum 2), (''a'', VNum 1)], Object [(''a'', VNum 1)]] 5
      = Some (Object [(''a'', VNum 1)])
   \<and> set (map fst [(''a'', VNum 1), (''b'', VNum 2)]) \<noteq> set (map fst [(''a'', VNum 1)])
   \<and> equals (Suc 3) [Array [VNum 1], Object [(''a'', VNum 1), (''b'', VNum 2)], Array [VNum 1],
           Array [], Object [(''b'', VNum 2), (''a'', VNum 1)], Object [(''a'', VNum 1)]]
        (VRef 1) (VRef 5) = Some False"
proof -
  let ?h = "[Array [VNum 1], Object [(''a'', VNum 1), (''b'', VNum 2)], Array [VNum 1], Array [],
           Object [(''b'', VNum 2), (''a'', VNum 1)], Object [(''a'', VNum 1)]]"
  have l: "lookup ?h 0 = Some (Array [VNum 1])"
    "lookup ?h 1 = Some (Object [(''a'', VNum 1), (''b'', VNum 2)])"
    "lookup ?h 2 = Some (Array [VNum 1])" "lookup ?h 3 = Some (Array [])"
    "lookup ?h 4 = Some (Object [(''b'', VNum 2), (''a'', VNum 1)])"
    "lookup ?h 5 = Some (Object [(''a'', VNum 1)])"
    by (simp_all add: lookup_def)
  have s: "set [(''b'', VNum 2), (''a'', VNum 1)] = set [(''a'', VNum 1), (''b'', VNum 2)]"
    "set (map fst [(''a'', VNum 1), (''b'', VNum 2)]) \<noteq> set (map fst [(''a'', VNum 1)])"
    "set (map fst [(''a'', VNum 1), (''b'', VNum 2)])
      = set (map fst [(''b'', VNum 2), (''a'', VNum 1)])"
    by auto
  have v: "equals 3 ?h (VNum 1) (VNum 1) = Some True" "equals 3 ?h (VNum 2) (VNum 2) = Some True"
    by (simp_all add: numeral_3_eq_3 strictEq_def)
  show ?thesis
    using equals_objects_unordered_arrays_ordered
      [of ?h 1 "[(''a'', VNum 1), (''b'', VNum 2)]" "[(''b'', VNum 2), (''a'', VNum 1)]" 3
          "VRef 1" "VRef 1" 0 "[VNum 1]" 2 "[VNum 1]" 0 "[VNum 1]" 3 "[]"
          1 "[(''a'', VNum 1), (''b'', VNum 2)]" 4 "[(''b'', VNum 2), (''a'', VNum 1)]"
          1 "[(''a'', VNum 1), (''b'', VNum 2)]" 5 "[(''a'', VNum 1)]"]
      l s v
    by simp
qed

text \<open>
  C9. \<open>equals\<close> is symmetric: at every depth of recursion the two calls give the same
  answer, and on a value nested at most \<open>n\<close> deep both return within \<open>n + 1\<close> levels.
\<close>

theorem equals_symmetric:
  "equals k h a b = equals k h b a
   \<and> (depthAtMost n h a \<longrightarrow> (\<exists>r. equals (Suc n) h a b = Some r \<and> equals (Suc n) h b a = Some r))"
  using equals_sym [of k h a b] equals_sym [of "Suc n" h a b] equals_returns [of n h a b]
  by auto

theorem equals_symmetric_witness:
  "depthAtMost 1 [Array [VNum 1, VNaN], Array [VNum 1, VNaN]] (VRef 0)
   \<and> (\<exists>r. equals (Suc 1) [Array [VNum 1, VNaN], Array [VNum 1, VNaN]] (VRef 0) (VRef 1) = Some r
         \<and> equals (Suc 1) [Array [VNum 1, VNaN], Array [VNum 1, VNaN]] (VRef 1) (VRef 0) = Some r)"
  using equals_symmetric [of 0 "[Array [VNum 1, VNaN], Array [VNum 1, VNaN]]" "VRef 0" "VRef 1" 1]
  by (simp add: lookup_def)

section \<open>Properties of distinct\<close>

lemma distinctLoop_returns:
  "(\<forall>k \<in> set ks. equals n h (getProp h base k) (getProp h target k) \<noteq> None)
    \<Longrightarrow> distinctLoop n h base target ks acc \<noteq> None"
proof (induction ks arbitrary: acc)
  case Nil
  show ?case by simp
next
  case (Cons x ks)
  then obtain eq where "equals n h (getProp h base x) (getProp h target x) = Some eq"
    by auto
  then show ?case
    using Cons.IH Cons.prems by (simp add: Let_def)
qed

lemma distinctLoop_result:
  "distinctLoop n h base target ks acc = Some res \<Longrightarrow>
     map_of res k =
       (if k \<in> set ks \<and> equals n h (getProp h base k) (getProp h target k) = Some False
        then Some (getProp h target k) else map_of acc k)"
proof (induction ks arbitrary: acc)
  case Nil
  then show ?case by simp
next
  case (Cons x ks)
  from Cons.prems obtain eq where
    e: "equals n h (getProp h base x) (getProp h target x) = Some eq"
    and r: "distinctLoop n h base target ks
         (if \<not> eq then AList.update x (getProp h target x) acc else acc) = Some res"
    by (simp add: Let_def split: option.splits)
  show ?case
    using Cons.IH [OF r, of ] e by (cases eq; cases "k = x") (simp_all add: update_conv')
qed

lemma getProp_own:
  "map_of (props h v) k = Some x \<Longrightarrow> getProp h v k = x"
  by (simp add: getProp_def)

lemma key_has_value: "k \<in> set (keys h v) \<Longrightarrow> \<exists>x. map_of (props h v) k = Some x"
  by (cases "map_of (props h v) k") (simp_all add: keys_def map_of_eq_None_iff)

lemma own_is_key: "map_of (props h v) k = Some x \<Longrightarrow> k \<in> set (keys h v)"
  using map_of_eq_None_iff [of "props h v" k] by (simp add: keys_def)

text \<open>
  C6. When \<open>base\<close> and \<open>target\<close> are plain objects and \<open>base\<close> is acyclic,
  \<^verbatim>\<open>distinct(base, target)\<close> returns a new object, and that object has the property \<open>k\<close>
  with value \<open>v\<close> exactly when \<open>target\<close> has it and \<^verbatim>\<open>equals(base[k], v)\<close> is false: the keys
  of \<open>base\<close> alone are ignored and the values are taken whole. When either argument is
  absent the new object is empty. \<^verbatim>\<open>distinct({a:1,b:2}, {a:1,b:3,c:4})\<close> is
  \<^verbatim>\<open>{b:3, c:4}\<close>.
\<close>

theorem distinct_result:
  "(objectLiteral h base \<and> objectLiteral h target \<and> depthAtMost n h base \<longrightarrow>
      (\<exists>result. distinctObjects n h base target = Some (h @ [Object result], VRef (length h))
         \<and> (\<forall>k v. map_of result k = Some v \<longleftrightarrow>
               map_of (props h target) k = Some v
               \<and> equals n h (getProp h base k) v = Some False)))
   \<and> (falsy base \<or> falsy target \<longrightarrow>
        distinctObjects n h base target = Some (h @ [Object []], VRef (length h)))
   \<and> distinctObjects 1
        [Object [(''a'', VNum 1), (''b'', VNum 2)],
         Object [(''a'', VNum 1), (''b'', VNum 3), (''c'', VNum 4)]] (VRef 0) (VRef 1)
      = Some ([Object [(''a'', VNum 1), (''b'', VNum 2)],
               Object [(''a'', VNum 1), (''b'', VNum 3), (''c'', VNum 4)],
               Object [(''b'', VNum 3), (''c'', VNum 4)]], VRef 2)"
proof (intro conjI impI)
  assume a: "objectLiteral h base \<and> objectLiteral h target \<and> depthAtMost n h base"
  then have nf: "\<not> falsy base" "\<not> falsy target"
    by (cases base; cases target; simp)+
  from a obtain m where n: "n = Suc m"
    by (cases base; cases n) auto
  have "depthAtMost m h (getProp h base k)" for k
    using a getProp_depth [of m h base k] unfolding n by blast
  then have ret: "equals n h (getProp h base k) (getProp h target k) \<noteq> None" for k
    unfolding n by (rule equals_returns)
  then obtain result where r: "distinctLoop n h base target (keys h target) [] = Some result"
    using distinctLoop_returns [of "keys h target" n h base target "[]"] by auto
  have "map_of result k = Some v \<longleftrightarrow>
         map_of (props h target) k = Some v \<and> equals n h (getProp h base k) v = Some False"
    for k v
  proof
    assume "map_of result k = Some v"
    then have k: "k \<in> set (keys h target)"
      and e: "equals n h (getProp h base k) (getProp h target k) = Some False"
      and v: "v = getProp h target k"
      using distinctLoop_result [OF r, of k] by (auto split: if_splits)
    from k obtain x where "map_of (props h target) k = Some x"
      using key_has_value by blast
    then show "map_of (props h target) k = Some v \<and> equals n h (getProp h base k) v = Some False"
      using e v by (simp add: getProp_own)
  next
    assume "map_of (props h target) k = Some v \<and> equals n h (getProp h base k) v = Some False"
    then show "map_of result k = Some v"
      using distinctLoop_result [OF r, of k] by (simp add: getProp_own own_is_key)
  qed
  then show "\<exists>result. distinctObjects n h base target = Some (h @ [Object result], VRef (length h))
         \<and> (\<forall>k v. map_of result k = Some v \<longleftrightarrow>
               map_of (props h target) k = Some v
               \<and> equals n h (getProp h base k) v = Some False)"
    using a nf r by (simp add: distinctObjects_def alloc_def)
next
  assume "falsy base \<or> falsy target"
  then show "distinctObjects n h base target = Some (h @ [Object []], VRef (length h))"
    by (simp add: distinctObjects_def alloc_def)
next
  show "distinctObjects 1
        [Object [(''a'', VNum 1), (''b'', VNum 2)],
         Object [(''a'', VNum 1), (''b'', VNum 3), (''c'', VNum 4)]] (VRef 0) (VRef 1)
      = Some ([Object [(''a'', VNum 1), (''b'', VNum 2)],
               Object [(''a'', VNum 1), (''b'', VNum 3), (''c'', VNum 4)],
               Object [(''b'', VNum 3), (''c'', VNum 4)]], VRef 2)"
    by (simp add: distinctObjects_def alloc_def lookup_def keys_def getProp_def strictEq_def Let_def)
qed

theorem distinct_result_witness:
  "objectLiteral [Object [(''a'', VNum 1)], Object [(''a'', VNaN), (''b'', VNull)]] (VRef 0)
   \<and> objectLiteral [Object [(''a'', VNum 1)], Object [(''a'', VNaN), (''b'', VNull)]] (VRef 1)
   \<and> depthAtMost 1 [Object [(''a'', VNum 1)], Object [(''a'', VNaN), (''b'', VNull)]] (VRef 0)
   \<and> falsy VNull
   \<and> (\<exists>result. distinctObjects 1 [Object [(''a'', VNum 1)], Object [(''a'', VNaN), (''b'', VNull)]]
          (VRef 0) (VRef 1)
        = Some ([Object [(''a'', VNum 1)], Object [(''a'', VNaN), (''b'', VNull)]] @ [Object result],
                VRef 2)
        \<and> map_of result ''b'' = Some VNull)
   \<and> distinctObjects 1 [Object [(''a'', VNum 1)]] VNull (VRef 0)
        = Some ([Object [(''a'', VNum 1)]] @ [Object []], VRef 1)"
proof -
  let ?h = "[Object [(''a'', VNum 1)], Object [(''a'', VNaN), (''b'', VNull)]]"
  have hyp: "objectLiteral ?h (VRef 0) \<and> objectLiteral ?h (VRef 1) \<and> depthAtMost 1 ?h (VRef 0)"
    by (simp add: lookup_def)
  then obtain result where
    r: "distinctObjects 1 ?h (VRef 0) (VRef 1) = Some (?h @ [Object result], VRef (length ?h))"
    and c: "\<forall>k v. map_of result k = Some v \<longleftrightarrow>
               map_of (props ?h (VRef 1)) k = Some v
               \<and> equals 1 ?h (getProp ?h (VRef 0) k) v = Some False"
    using distinct_result [of ?h "VRef 0" "VRef 1" 1] by blast
  have "getProp ?h (VRef 0) ''b'' = VUndefined"
    by (simp add: getProp_def lookup_def objectPrototypeKeys_def)
  then have "map_of result ''b'' = Some VNull"
    using c by (simp add: lookup_def strictEq_def)
  moreover have "distinctObjects 1 [Object [(''a'', VNum 1)]] VNull (VRef 0)
        = Some ([Object [(''a'', VNum 1)]] @ [Object []], VRef 1)"
    using distinct_result [of "[Object [(''a'', VNum 1)]]" VNull "VRef 0" 1] by simp
  ultimately show ?thesis
    using hyp r by simp
qed


section \<open>Properties of createKeywordMatcher\<close>

lemma arrayToHash_map_of:
  "map_of (arrayToHash ws acc) k =
     (if k \<in> set ws \<and> k \<noteq> ''__proto__'' then Some (VBool True) else map_of acc k)"
  by (induction ws arbitrary: acc) (simp_all add: update_conv')

text \<open>The test is membership in the word list as long as the list holds neither
  \<^verbatim>\<open>hasOwnProperty\<close> nor \<^verbatim>\<open>__proto__\<close> and the word asked for is not an inherited name.\<close>

lemma hashTest_arrayToHash:
  assumes "''hasOwnProperty'' \<notin> set ws" "''__proto__'' \<notin> set ws"
    "w \<notin> set objectPrototypeKeys" "w \<noteq> ''__proto__''"
  shows "hashTest (arrayToHash ws []) w = Inr (w \<in> set ws)"
proof -
  have m: "map_of (arrayToHash ws []) k = (if k \<in> set ws then Some (VBool True) else None)" for k
    using assms(2) by (cases "k = ''__proto__''") (simp_all add: arrayToHash_map_of)
  have "w \<in> set (map fst (arrayToHash ws [])) \<longleftrightarrow> w \<in> set ws"
    using m [of w] map_of_eq_None_iff [of "arrayToHash ws []" w] by (simp split: if_splits)
  then show ?thesis
    using assms by (simp add: hashTest_def m)
qed

lemma toLowerCase_IF:
  "toLowerCase ''IF'' = ''if''" "toLowerCase ''if'' = ''if''" "toLowerCase ''else'' = ''else''"
  by code_simp+

text \<open>
  C8. The matcher built from a word list that holds \<^verbatim>\<open>hasOwnProperty\<close> does not answer
  for a word of the list: the call \<^verbatim>\<open>hash.hasOwnProperty(word)\<close> finds the own property
  \<^verbatim>\<open>true\<close> of the hash and throws a \<^verbatim>\<open>TypeError\<close>. The two calls of the specification
  answer as it says: \<^verbatim>\<open>createKeywordMatcher(['if','else'], true)("IF")\<close> is true and
  \<^verbatim>\<open>createKeywordMatcher(['if','else'], false)("IF")\<close> is false.
\<close>

theorem createKeywordMatcher_own_hasOwnProperty:
  "createKeywordMatcher [''if'', ''hasOwnProperty''] False ''if'' = Inl TypeError
   \<and> createKeywordMatcher [''if'', ''else''] True ''IF'' = Inr True
   \<and> createKeywordMatcher [''if'', ''else''] False ''IF'' = Inr False"
  by (simp add: createKeywordMatcher_def hashTest_def toLowerCase_IF Let_def
      objectPrototypeKeys_def)


section \<open>Properties of deepClone\<close>

lemma lookup_append: "a < length h \<Longrightarrow> lookup (h @ g) a = lookup h a"
  by (simp add: lookup_def nth_append)





lemma depthAtMost_pred: "depthAtMost 0 h v \<Longrightarrow> depthAtMost m h v"
  by (cases v) simp_all



























declare deepClone.simps [simp del]










text \<open>
  An own property named \<^verbatim>\<open>__proto__\<close> is not copied: the clone of the object that
  \<^verbatim>\<open>JSON.parse('{"__proto__": 1}')\<close> returns is an object without properties, and
  \<^verbatim>\<open>equals\<close> of the two is false.
\<close>

lemma deepClone_proto_key_dropped:
  "depthAtMost 1 [Object [(''__proto__'', VNum 1)]] (VRef 0)
   \<and> nanFree 1 [Object [(''__proto__'', VNum 1)]] (VRef 0)
   \<and> deepClone 2 [Object [(''__proto__'', VNum 1)]] (VRef 0)
       = Some ([Object [(''__proto__'', VNum 1)], Object []], VRef 1)
   \<and> equals 2 [Object [(''__proto__'', VNum 1)], Object []] (VRef 0) (VRef 1) = Some False"
  by (simp add: deepClone.simps lookup_def alloc_def strictEq_def numeral_2_eq_2 assignAll_def
      keys_def equalsKeys_def)


section \<open>Properties of cloneAndChange\<close>

lemma cloneList_withStack:
  assumes "\<And>s x. encounteredObjects s = enc \<Longrightarrow>
      f s x = withStack enc (g (heap s, changerCalls s) x)"
  shows "encounteredObjects s = enc \<Longrightarrow>
      cloneList f s xs = withStack enc (cloneList g (heap s, changerCalls s) xs)"
proof (induction xs arbitrary: s)
  case Nil
  then show ?case by simp
next
  case (Cons x xs)
  show ?case
  proof (cases "g (heap s, changerCalls s) x")
    case None
    then show ?thesis using assms [OF Cons.prems, of x] by simp
  next
    case (Some r)
    show ?thesis
    proof (cases r)
      case (Inl e)
      then show ?thesis using Some assms [OF Cons.prems, of x] by simp
    next
      case (Inr p)
      obtain h1 c1 y where p: "p = ((h1, c1), y)" by (cases p) auto
      let ?s1 = "\<lparr>heap = h1, encounteredObjects = enc, changerCalls = c1\<rparr>"
      have fx: "f s x = Some (Inr (?s1, y))"
        using Some Inr p assms [OF Cons.prems, of x] by simp
      have "cloneList f ?s1 xs = withStack enc (cloneList g (h1, c1) xs)"
        using Cons.IH [of ?s1] by simp
      then show ?thesis
        using fx Some Inr p
        by (simp split: option.splits sum.splits prod.splits)
    qed
  qed
qed


lemma withStack_cases:
  obtains "r = None" | e where "r = Some (Inl e)" | h c v where "r = Some (Inr ((h, c), v))"
  by (cases r; cases "the r"; cases "projr (the r)"; cases "fst (projr (the r))") auto

lemma cloneAndChange_refines:
  "cloneAndChange' n changer s obj =
     withStack (encounteredObjects s)
       (cloneOnPath n changer (encounteredObjects s) (heap s, changerCalls s) obj)"
proof (induction n arbitrary: s obj)
  case 0
  show ?case by simp
next
  case (Suc n)
  let ?enc = "encounteredObjects s"
  let ?s1 = "s\<lparr>changerCalls := changerCalls s @ [obj]\<rparr>"
  let ?t1 = "(heap s, changerCalls s @ [obj])"
  have arr: "cloneList (cloneAndChange' n changer) ?s1 xs =
      withStack ?enc (cloneList (cloneOnPath n changer ?enc) ?t1 xs)" for xs
    using cloneList_withStack [of ?enc "cloneAndChange' n changer" "cloneOnPath n changer ?enc" ?s1 xs]
      Suc.IH by simp
  let ?s2 = "?s1\<lparr>encounteredObjects := ?enc @ [obj]\<rparr>"
  have obj: "cloneList (cloneAndChange' n changer) ?s2 xs =
      withStack (?enc @ [obj]) (cloneList (cloneOnPath n changer (?enc @ [obj])) ?t1 xs)" for xs
    using cloneList_withStack [of "?enc @ [obj]" "cloneAndChange' n changer"
        "cloneOnPath n changer (?enc @ [obj])" ?s2 xs]
      Suc.IH by simp
  show ?case
  proof (cases "obj = VNull \<or> obj = VUndefined")
    case True
    then show ?thesis by auto
  next
    case nn: False
    show ?thesis
    proof (cases "changer (heap s) obj \<noteq> VUndefined")
      case True
      then show ?thesis using nn by (simp add: Let_def)
    next
      case ch: False
      show ?thesis
      proof (cases "isArray (heap s) obj")
        case True
        show ?thesis
          by (cases "cloneList (cloneOnPath n changer ?enc) ?t1 (elems (heap s) obj)"
              rule: withStack_cases)
            (use nn ch True in \<open>simp_all add: Let_def arr\<close>)
      next
        case na: False
        show ?thesis
        proof (cases "objectLiteral (heap s) obj")
          case True
          show ?thesis
          proof (cases "obj \<in> set ?enc")
            case True
            then show ?thesis using nn ch na \<open>objectLiteral (heap s) obj\<close> by (simp add: Let_def)
          next
            case False
            show ?thesis
              by (cases "cloneList (cloneOnPath n changer (?enc @ [obj])) ?t1
                    (map snd (props (heap s) obj))" rule: withStack_cases)
                (use nn ch na True False in \<open>simp_all add: Let_def obj\<close>)
          qed
        next
          case False
          then show ?thesis using nn ch na by (simp add: Let_def)
        qed
      qed
    qed
  qed
qed


lemma cloneList_Inr_Cons:
  "cloneList f s (x # xs) = Some (Inr (s', zs)) \<longleftrightarrow>
     (\<exists>s1 y ys. f s x = Some (Inr (s1, y)) \<and> cloneList f s1 xs = Some (Inr (s', ys)) \<and> zs = y # ys)"
  by (auto split: option.splits sum.splits prod.splits)

lemma cloneList_calls:
  assumes "\<And>s x s' y. f s x = Some (Inr (s', y)) \<Longrightarrow>
      \<exists>new. changerCalls s' = changerCalls s @ new \<and> VNull \<notin> set new \<and> VUndefined \<notin> set new"
  shows "cloneList f s xs = Some (Inr (s', ys)) \<Longrightarrow>
      \<exists>new. changerCalls s' = changerCalls s @ new \<and> VNull \<notin> set new \<and> VUndefined \<notin> set new"
proof (induction xs arbitrary: s ys)
  case Nil
  then show ?case by simp
next
  case (Cons x xs)
  then obtain s1 y ys' where 1: "f s x = Some (Inr (s1, y))"
    and 2: "cloneList f s1 xs = Some (Inr (s', ys'))"
    unfolding cloneList_Inr_Cons by blast
  from assms [OF 1] obtain new1 where
    n1: "changerCalls s1 = changerCalls s @ new1" "VNull \<notin> set new1" "VUndefined \<notin> set new1"
    by blast
  from Cons.IH [OF 2] obtain new2 where
    n2: "changerCalls s' = changerCalls s1 @ new2" "VNull \<notin> set new2" "VUndefined \<notin> set new2"
    by blast
  have "changerCalls s' = changerCalls s @ (new1 @ new2)"
    "VNull \<notin> set (new1 @ new2)" "VUndefined \<notin> set (new1 @ new2)"
    using n1 n2 by simp_all
  then show ?case by blast
qed

lemma cloneList_keeps:
  assumes "\<And>s x s' y. x = VNull \<or> x = VUndefined \<Longrightarrow> f s x = Some (Inr (s', y)) \<Longrightarrow> y = x"
  shows "cloneList f s xs = Some (Inr (s', ys)) \<Longrightarrow>
      list_all2 (\<lambda>x y. x = VNull \<or> x = VUndefined \<longrightarrow> y = x) xs ys"
proof (induction xs arbitrary: s ys)
  case Nil
  then show ?case by simp
next
  case (Cons x xs)
  then obtain s1 y ys' where 1: "f s x = Some (Inr (s1, y))"
    and 2: "cloneList f s1 xs = Some (Inr (s', ys'))" and 3: "ys = y # ys'"
    unfolding cloneList_Inr_Cons by blast
  have "x = VNull \<or> x = VUndefined \<longrightarrow> y = x"
    using assms [of x s s1 y] 1 by auto
  then show ?case using Cons.IH [OF 2] 3 by simp
qed

text \<open>The three ways in which a call of \<open>cloneAndChange'\<close> on a value that is neither
  \<^verbatim>\<open>null\<close> nor \<^verbatim>\<open>undefined\<close> returns.\<close>

lemma cloneAndChange_returns_cases:
  assumes r: "cloneAndChange' (Suc n) changer s obj = Some (Inr (s', r))"
    and nn: "obj \<noteq> VNull" "obj \<noteq> VUndefined"
  obtains
    (leaf) "s' = s\<lparr>changerCalls := changerCalls s @ [obj]\<rparr>"
      "r = changer (heap s) obj \<or> r = obj"
      "changer (heap s) obj \<noteq> VUndefined
        \<or> (\<not> isArray (heap s) obj \<and> \<not> objectLiteral (heap s) obj)"
  | (array) s2 r1 where "changer (heap s) obj = VUndefined" "isArray (heap s) obj"
      "cloneList (cloneAndChange' n changer) (s\<lparr>changerCalls := changerCalls s @ [obj]\<rparr>)
         (elems (heap s) obj) = Some (Inr (s2, r1))"
      "s' = s2\<lparr>heap := heap s2 @ [Array r1]\<rparr>" "r = VRef (length (heap s2))"
  | (object) s3 vs where "changer (heap s) obj = VUndefined" "\<not> isArray (heap s) obj"
      "objectLiteral (heap s) obj" "obj \<notin> set (encounteredObjects s)"
      "cloneList (cloneAndChange' n changer)
         (s\<lparr>changerCalls := changerCalls s @ [obj],
            encounteredObjects := encounteredObjects s @ [obj]\<rparr>)
         (map snd (props (heap s) obj)) = Some (Inr (s3, vs))"
      "s' = s3\<lparr>encounteredObjects := butlast (encounteredObjects s3),
               heap := heap s3 @ [Object (zip (keys (heap s) obj) vs)]\<rparr>"
      "r = VRef (length (heap s3))"
proof (cases "changer (heap s) obj \<noteq> VUndefined")
  case True
  then show ?thesis using r nn by (intro leaf) (auto simp: Let_def)
next
  case ch: False
  show ?thesis
  proof (cases "isArray (heap s) obj")
    case True
    with r nn ch obtain s2 r1 where
      "cloneList (cloneAndChange' n changer) (s\<lparr>changerCalls := changerCalls s @ [obj]\<rparr>)
         (elems (heap s) obj) = Some (Inr (s2, r1))"
      "s' = s2\<lparr>heap := heap s2 @ [Array r1]\<rparr>" "r = VRef (length (heap s2))"
      by (auto simp: Let_def alloc_def split: option.splits sum.splits prod.splits)
    then show ?thesis
      using ch True by (intro array [of s2 r1]) simp_all
  next
    case na: False
    show ?thesis
    proof (cases "objectLiteral (heap s) obj")
      case True
      with r nn ch na obtain s3 vs where
        "obj \<notin> set (encounteredObjects s)"
        "cloneList (cloneAndChange' n changer)
           (s\<lparr>changerCalls := changerCalls s @ [obj],
              encounteredObjects := encounteredObjects s @ [obj]\<rparr>)
           (map snd (props (heap s) obj)) = Some (Inr (s3, vs))"
        "s' = s3\<lparr>encounteredObjects := butlast (encounteredObjects s3),
               heap := heap s3 @ [Object (zip (keys (heap s) obj) vs)]\<rparr>"
        "r = VRef (length (heap s3))"
        by (auto simp: Let_def alloc_def split: option.splits sum.splits prod.splits if_splits)
      then show ?thesis
        using ch na True by (intro object [of s3 vs]) simp_all
    next
      case False
      then show ?thesis using r nn ch na by (intro leaf) (auto simp: Let_def)
    qed
  qed
qed


lemma cloneAndChange_null:
  "obj = VNull \<or> obj = VUndefined \<Longrightarrow> cloneAndChange' (Suc n) changer s obj = Some (Inr (s, obj))"
  by auto

lemma cloneAndChange_null_result:
  "x = VNull \<or> x = VUndefined \<Longrightarrow> cloneAndChange' n changer s x = Some (Inr (s', y)) \<Longrightarrow> y = x"
  by (cases n) auto

lemma cloneAndChange_calls:
  "cloneAndChange' n changer s obj = Some (Inr (s', r)) \<Longrightarrow>
     \<exists>new. changerCalls s' = changerCalls s @ new \<and> VNull \<notin> set new \<and> VUndefined \<notin> set new"
proof (induction n arbitrary: s obj s' r)
  case 0
  then show ?case by simp
next
  case (Suc n)
  show ?case
  proof (cases "obj = VNull \<or> obj = VUndefined")
    case True
    then have "s' = s" using Suc.prems by auto
    then show ?thesis by simp
  next
    case False
    then have nn: "obj \<noteq> VNull" "obj \<noteq> VUndefined" by simp_all
    have ih: "\<And>s x s' y. cloneAndChange' n changer s x = Some (Inr (s', y)) \<Longrightarrow>
      \<exists>new. changerCalls s' = changerCalls s @ new \<and> VNull \<notin> set new \<and> VUndefined \<notin> set new"
      by (rule Suc.IH)
    from Suc.prems nn show ?thesis
    proof (cases rule: cloneAndChange_returns_cases)
      case leaf
      then have "changerCalls s' = changerCalls s @ [obj] \<and> VNull \<notin> set [obj]
          \<and> VUndefined \<notin> set [obj]"
        using nn by auto
      then show ?thesis by blast
    next
      case (array s2 r1)
      have "\<exists>new. changerCalls s2 = changerCalls (s\<lparr>changerCalls := changerCalls s @ [obj]\<rparr>) @ new
          \<and> VNull \<notin> set new \<and> VUndefined \<notin> set new"
        by (rule cloneList_calls [where f = "cloneAndChange' n changer", OF _ array(3)]) (rule ih)
      then obtain new where
        "changerCalls s2 = (changerCalls s @ [obj]) @ new" "VNull \<notin> set new" "VUndefined \<notin> set new"
        by auto
      then have "changerCalls s' = changerCalls s @ (obj # new) \<and> VNull \<notin> set (obj # new)
          \<and> VUndefined \<notin> set (obj # new)"
        using nn array(4) by auto
      then show ?thesis by blast
    next
      case (object s3 vs)
      have "\<exists>new. changerCalls s3 = changerCalls (s\<lparr>changerCalls := changerCalls s @ [obj],
            encounteredObjects := encounteredObjects s @ [obj]\<rparr>) @ new
          \<and> VNull \<notin> set new \<and> VUndefined \<notin> set new"
        by (rule cloneList_calls [where f = "cloneAndChange' n changer", OF _ object(5)]) (rule ih)
      then obtain new where
        "changerCalls s3 = (changerCalls s @ [obj]) @ new" "VNull \<notin> set new" "VUndefined \<notin> set new"
        by auto
      then have "changerCalls s' = changerCalls s @ (obj # new) \<and> VNull \<notin> set (obj # new)
          \<and> VUndefined \<notin> set (obj # new)"
        using nn object(6) by auto
      then show ?thesis by blast
    qed
  qed
qed

lemma cloneAndChange_array_keeps:
  assumes "cloneAndChange' n changer s obj = Some (Inr (s', r))"
    "changer (heap s) obj = VUndefined" "isArray (heap s) obj"
  shows "list_all2 (\<lambda>x y. x = VNull \<or> x = VUndefined \<longrightarrow> y = x)
           (elems (heap s) obj) (elems (heap s') r)"
proof (cases n)
  case 0
  with assms show ?thesis by simp
next
  case (Suc m)
  have nn: "obj \<noteq> VNull" "obj \<noteq> VUndefined" using assms(3) by auto
  from assms(1) [unfolded Suc] nn show ?thesis
  proof (cases rule: cloneAndChange_returns_cases)
    case leaf
    with assms show ?thesis by simp
  next
    case (array s2 r1)
    have "elems (heap s') r = r1"
      using array(4,5) by (simp add: lookup_def)
    then show ?thesis
      using cloneList_keeps [where f = "cloneAndChange' m changer", OF _ array(3)]
        cloneAndChange_null_result [of _ m changer]
      by blast
  next
    case (object s3 vs)
    with assms show ?thesis by simp
  qed
qed

lemma cloneAndChange_object_keeps:
  assumes "cloneAndChange' n changer s obj = Some (Inr (s', r))"
    "changer (heap s) obj = VUndefined" "objectLiteral (heap s) obj"
  shows "keys (heap s') r = keys (heap s) obj \<and>
         list_all2 (\<lambda>x y. x = VNull \<or> x = VUndefined \<longrightarrow> y = x)
           (map snd (props (heap s) obj)) (map snd (props (heap s') r))"
proof (cases n)
  case 0
  with assms show ?thesis by simp
next
  case (Suc m)
  have nn: "obj \<noteq> VNull" "obj \<noteq> VUndefined" using assms(3) by auto
  from assms(1) [unfolded Suc] nn show ?thesis
  proof (cases rule: cloneAndChange_returns_cases)
    case leaf
    with assms show ?thesis by simp
  next
    case (array s2 r1)
    with assms(3) show ?thesis
      by (cases obj) (auto split: option.splits node.splits)
  next
    case (object s3 vs)
    have k: "list_all2 (\<lambda>x y. x = VNull \<or> x = VUndefined \<longrightarrow> y = x)
        (map snd (props (heap s) obj)) vs"
      using cloneList_keeps [where f = "cloneAndChange' m changer", OF _ object(5)]
        cloneAndChange_null_result [of _ m changer]
      by blast
    then have "length vs = length (keys (heap s) obj)"
      by (simp add: keys_def list_all2_lengthD [symmetric])
    moreover have "props (heap s') r = zip (keys (heap s) obj) vs"
      using object(6,7) by (simp add: lookup_def)
    ultimately show ?thesis
      using k by (simp add: keys_def)
  qed
qed


lemma cloneAndChange_cycle_throws:
  "cloneAndChange (Suc (Suc (Suc 0))) (\<lambda>h v. VUndefined)
     [Object [(''a'', VRef 1)], Object [(''b'', VRef 0)]] (VRef 0)
   = Some (Inl RecursiveStructure)"
  by (simp add: cloneAndChange_def lookup_def Let_def)

lemma cloneAndChange_shared_sibling:
  "cloneAndChange (Suc (Suc (Suc 0))) (\<lambda>h v. VUndefined)
     [Object [(''a'', VRef 1), (''c'', VRef 1)], Object [(''b'', VNull)]] (VRef 0)
   = Some (Inr (\<lparr>heap = [Object [(''a'', VRef 1), (''c'', VRef 1)], Object [(''b'', VNull)],
                          Object [(''b'', VNull)], Object [(''b'', VNull)],
                          Object [(''a'', VRef 2), (''c'', VRef 3)]],
                  encounteredObjects = [],
                  changerCalls = [VRef 0, VRef 1, VRef 1]\<rparr>, VRef 4))"
  by (simp add: cloneAndChange_def lookup_def Let_def alloc_def keys_def)

lemma cloneAndChange_equal_distinct:
  "cloneAndChange (Suc (Suc (Suc 0))) (\<lambda>h v. VUndefined)
     [Object [(''a'', VRef 1), (''c'', VRef 2)], Object [(''b'', VNum 1)], Object [(''b'', VNum 1)]]
     (VRef 0)
   = Some (Inr (\<lparr>heap = [Object [(''a'', VRef 1), (''c'', VRef 2)], Object [(''b'', VNum 1)],
                          Object [(''b'', VNum 1)], Object [(''b'', VNum 1)],
                          Object [(''b'', VNum 1)], Object [(''a'', VRef 3), (''c'', VRef 4)]],
                  encounteredObjects = [],
                  changerCalls = [VRef 0, VRef 1, VNum 1, VRef 2, VNum 1]\<rparr>, VRef 5))"
  by (simp add: cloneAndChange_def lookup_def Let_def alloc_def keys_def)


text \<open>
  C2. From every state and at every depth, \<^verbatim>\<open>_cloneAndChange\<close> with its shared array
  \<^verbatim>\<open>encounteredObjects\<close> does what the traversal on a path does: the array holds
  the plain objects the call is nested in, the error is thrown exactly at a plain
  object that is among them, and a call that returns leaves the array as it found it
  (pushed before the properties are visited, popped after). So an object that lies on
  a cycle throws, while an object met twice under two sibling keys, or two distinct
  objects that are equal, are copied without error.
\<close>

theorem cloneAndChange_stack_is_path:
  "cloneAndChange' n changer s obj =
     withStack (encounteredObjects s)
       (cloneOnPath n changer (encounteredObjects s) (heap s, changerCalls s) obj)
   \<and> cloneAndChange (Suc (Suc (Suc 0))) (\<lambda>h v. VUndefined)
       [Object [(''a'', VRef 1)], Object [(''b'', VRef 0)]] (VRef 0)
     = Some (Inl RecursiveStructure)
   \<and> cloneAndChange (Suc (Suc (Suc 0))) (\<lambda>h v. VUndefined)
       [Object [(''a'', VRef 1), (''c'', VRef 1)], Object [(''b'', VNull)]] (VRef 0)
     = Some (Inr (\<lparr>heap = [Object [(''a'', VRef 1), (''c'', VRef 1)], Object [(''b'', VNull)],
                            Object [(''b'', VNull)], Object [(''b'', VNull)],
                            Object [(''a'', VRef 2), (''c'', VRef 3)]],
                    encounteredObjects = [],
                    changerCalls = [VRef 0, VRef 1, VRef 1]\<rparr>, VRef 4))
   \<and> cloneAndChange (Suc (Suc (Suc 0))) (\<lambda>h v. VUndefined)
       [Object [(''a'', VRef 1), (''c'', VRef 2)], Object [(''b'', VNum 1)],
        Object [(''b'', VNum 1)]] (VRef 0)
     = Some (Inr (\<lparr>heap = [Object [(''a'', VRef 1), (''c'', VRef 2)], Object [(''b'', VNum 1)],
                            Object [(''b'', VNum 1)], Object [(''b'', VNum 1)],
                            Object [(''b'', VNum 1)], Object [(''a'', VRef 3), (''c'', VRef 4)]],
                    encounteredObjects = [],
                    changerCalls = [VRef 0, VRef 1, VNum 1, VRef 2, VNum 1]\<rparr>, VRef 5))"
  by (intro conjI cloneAndChange_refines cloneAndChange_cycle_throws
      cloneAndChange_shared_sibling cloneAndChange_equal_distinct)

theorem cloneAndChange_stack_is_path_witness:
  "cloneAndChange' (Suc (Suc 0)) (\<lambda>h v. VUndefined)
      \<lparr>heap = [Object [(''a'', VRef 0)]], encounteredObjects = [], changerCalls = []\<rparr> (VRef 0)
    = withStack []
       (cloneOnPath (Suc (Suc 0)) (\<lambda>h v. VUndefined) [] ([Object [(''a'', VRef 0)]], []) (VRef 0))"
  using cloneAndChange_stack_is_path [of "Suc (Suc 0)" "\<lambda>h v. VUndefined"
      "\<lparr>heap = [Object [(''a'', VRef 0)]], encounteredObjects = [], changerCalls = []\<rparr>" "VRef 0"]
  by simp

text \<open>
  C10. On \<^verbatim>\<open>null\<close> and on \<^verbatim>\<open>undefined\<close>, \<^verbatim>\<open>_cloneAndChange\<close> returns the value itself and
  leaves the state as it is: the changer is not called. Whatever value it is called on,
  when it returns, the values the changer has been called with since are neither
  \<^verbatim>\<open>null\<close> nor \<^verbatim>\<open>undefined\<close>; and when it copies an array or a plain object (the changer
  gave no replacement), the copy has \<^verbatim>\<open>null\<close> and \<^verbatim>\<open>undefined\<close> at the places where the
  original has them.
\<close>

theorem cloneAndChange_skips_null:
  "(obj = VNull \<or> obj = VUndefined \<longrightarrow>
      cloneAndChange' (Suc n) changer s obj = Some (Inr (s, obj)))
   \<and> (cloneAndChange' n changer s obj = Some (Inr (s', r)) \<longrightarrow>
        (\<exists>new. changerCalls s' = changerCalls s @ new
           \<and> VNull \<notin> set new \<and> VUndefined \<notin> set new)
      \<and> (changer (heap s) obj = VUndefined \<and> isArray (heap s) obj \<longrightarrow>
           list_all2 (\<lambda>x y. x = VNull \<or> x = VUndefined \<longrightarrow> y = x)
             (elems (heap s) obj) (elems (heap s') r))
      \<and> (changer (heap s) obj = VUndefined \<and> objectLiteral (heap s) obj \<longrightarrow>
           keys (heap s') r = keys (heap s) obj
           \<and> list_all2 (\<lambda>x y. x = VNull \<or> x = VUndefined \<longrightarrow> y = x)
               (map snd (props (heap s) obj)) (map snd (props (heap s') r))))"
  using cloneAndChange_null [of obj n changer s] cloneAndChange_calls [of n changer s obj s' r]
    cloneAndChange_array_keeps [of n changer s obj s' r]
    cloneAndChange_object_keeps [of n changer s obj s' r]
  by blast

theorem cloneAndChange_skips_null_witness:
  "cloneAndChange' (Suc 0) (\<lambda>h v. VStr ''x'')
      \<lparr>heap = [], encounteredObjects = [], changerCalls = []\<rparr> VNull
     = Some (Inr (\<lparr>heap = [], encounteredObjects = [], changerCalls = []\<rparr>, VNull))
   \<and> cloneAndChange' (Suc (Suc 0)) (\<lambda>h v. VUndefined)
        \<lparr>heap = [Array [VNull, VNum 1, VUndefined]], encounteredObjects = [], changerCalls = []\<rparr>
        (VRef 0)
     = Some (Inr (\<lparr>heap = [Array [VNull, VNum 1, VUndefined], Array [VNull, VNum 1, VUndefined]],
                    encounteredObjects = [], changerCalls = [VRef 0, VNum 1]\<rparr>, VRef 1))
   \<and> (\<exists>new. [VRef 0, VNum 1] = [] @ new \<and> VNull \<notin> set new \<and> VUndefined \<notin> set new)
   \<and> list_all2 (\<lambda>x y. x = VNull \<or> x = VUndefined \<longrightarrow> y = x)
        (elems [Array [VNull, VNum 1, VUndefined]] (VRef 0))
        (elems [Array [VNull, VNum 1, VUndefined], Array [VNull, VNum 1, VUndefined]] (VRef 1))"
proof -
  let ?s = "\<lparr>heap = [Array [VNull, VNum 1, VUndefined]], encounteredObjects = [], changerCalls = []\<rparr>"
  let ?s' = "\<lparr>heap = [Array [VNull, VNum 1, VUndefined], Array [VNull, VNum 1, VUndefined]],
                    encounteredObjects = [], changerCalls = [VRef 0, VNum 1]\<rparr>"
  have run: "cloneAndChange' (Suc (Suc 0)) (\<lambda>h v. VUndefined) ?s (VRef 0) = Some (Inr (?s', VRef 1))"
    by (simp add: lookup_def Let_def alloc_def)
  have arr: "isArray (heap ?s) (VRef 0)"
    by (simp add: lookup_def)
  show ?thesis
    using cloneAndChange_skips_null [of VNull 0 "\<lambda>h v. VStr ''x''"
        "\<lparr>heap = [], encounteredObjects = [], changerCalls = []\<rparr>"]
      cloneAndChange_skips_null [of "VRef 0" "Suc (Suc 0)" "\<lambda>h v. VUndefined" ?s ?s' "VRef 1"]
      run arr
    by simp
qed


section \<open>Properties of deepFreeze\<close>

lemma deepFreezeLoop_grows: "F \<subseteq> deepFreezeLoop h F stack"
proof (induction h F stack rule: deepFreezeLoop.induct)
  case (1 h F)
  show ?case by simp
next
  case (2 h F obj stack)
  have "F \<subseteq> freeze F obj" by (cases obj) auto
  with 2 show ?case by auto
qed

lemma deepFreezeLoop_stack: "VRef a \<in> set stack \<Longrightarrow> a \<in> deepFreezeLoop h F stack"
proof (induction h F stack rule: deepFreezeLoop.induct)
  case (1 h F)
  then show ?case by simp
next
  case (2 h F obj stack)
  show ?case
  proof (cases "obj = VRef a")
    case True
    then have "a \<in> freeze F obj" by simp
    then show ?thesis
      using deepFreezeLoop_grows [of "freeze F obj" h "stack @ toPush h (freeze F obj) obj"]
      by auto
  next
    case False
    with 2 show ?thesis by auto
  qed
qed

lemma deepFreezeLoop_children:
  "VRef a \<in> set stack \<or> (a \<in> deepFreezeLoop h F stack \<and> a \<notin> F) \<Longrightarrow>
     VRef b \<in> set (ownValues h (VRef a)) \<Longrightarrow> b \<in> deepFreezeLoop h F stack"
proof (induction h F stack rule: deepFreezeLoop.induct)
  case (1 h F)
  then show ?case by simp
next
  case (2 h F obj stack)
  let ?F = "freeze F obj"
  let ?stack = "stack @ toPush h ?F obj"
  let ?R = "deepFreezeLoop h ?F ?stack"
  have R: "deepFreezeLoop h F (obj # stack) = ?R" by simp
  show ?case
  proof (cases "VRef a \<in> set ?stack \<or> (a \<in> ?R \<and> a \<notin> ?F)")
    case True
    then show ?thesis using "2.IH" "2.prems"(2) R by simp
  next
    case False
    with "2.prems"(1) R have obj: "obj = VRef a"
      by (cases obj) auto
    show ?thesis
    proof (cases "b \<in> ?F")
      case True
      then show ?thesis using deepFreezeLoop_grows [of ?F h ?stack] R by auto
    next
      case False
      then have "VRef b \<in> set (toPush h ?F obj)"
        using "2.prems"(2) obj by (simp add: toPush_def)
      then have "VRef b \<in> set ?stack" by simp
      then show ?thesis using deepFreezeLoop_stack [of b ?stack h ?F] R by simp
    qed
  qed
qed

declare deepFreezeLoop.simps [simp del]

lemma reachesUnfrozen_unfrozen: "reachesUnfrozen h F r a \<Longrightarrow> a = r \<or> a \<notin> F"
  by (induction rule: reachesUnfrozen.induct) auto

lemma deepFreezeLoop_reaches:
  "reachesUnfrozen h F r b \<Longrightarrow> b \<in> deepFreezeLoop h F [VRef r]"
proof (induction rule: reachesUnfrozen.induct)
  case root
  show ?case by (rule deepFreezeLoop_stack) simp
next
  case (step a b)
  have "VRef a \<in> set [VRef r] \<or> (a \<in> deepFreezeLoop h F [VRef r] \<and> a \<notin> F)"
    using reachesUnfrozen_unfrozen [OF step.hyps(1)] step.IH by auto
  then show ?case using step.hyps(2) by (rule deepFreezeLoop_children)
qed

lemma deepFreezeLoop_again:
  "deepFreezeLoop h (deepFreezeLoop h F [VRef r]) [VRef r] = deepFreezeLoop h F [VRef r]"
proof -
  let ?R = "deepFreezeLoop h F [VRef r]"
  have r: "r \<in> ?R" by (rule deepFreezeLoop_stack) simp
  then have i: "insert r ?R = ?R" by auto
  have "\<not> (typeof c = ''object'' \<and> \<not> isFrozen ?R c)" if "c \<in> set (ownValues h (VRef r))" for c
  proof (cases c)
    case (VRef b)
    then have "b \<in> ?R"
      using deepFreezeLoop_children [of r "[VRef r]" h F b] that by simp
    then show ?thesis using VRef by simp
  qed simp_all
  then have "toPush h ?R (VRef r) = []"
    by (simp add: toPush_def filter_empty_conv)
  then show ?thesis by (simp add: i deepFreezeLoop.simps [of h ?R])
qed

lemma object_is_ref: "\<not> (falsy obj \<or> typeof obj \<noteq> ''object'') \<Longrightarrow> \<exists>r. obj = VRef r"
  by (cases obj) auto

lemma deepFreeze_twice: "deepFreeze h (fst (deepFreeze h F obj)) obj = deepFreeze h F obj"
proof (cases "falsy obj \<or> typeof obj \<noteq> ''object''")
  case True
  then show ?thesis by (simp add: deepFreeze_def)
next
  case False
  then obtain r where "obj = VRef r" using object_is_ref by blast
  then show ?thesis by (simp add: deepFreeze_def deepFreezeLoop_again)
qed

text \<open>
  C3 (as amended). \<^verbatim>\<open>deepFreeze\<close> is defined on every object graph, cyclic ones included
  (the loop above terminates). It returns the value it was given; what was frozen stays
  frozen; every object reached from the root by a path of objects that were not frozen
  before the call is frozen after it; and a second call on the same graph changes
  nothing. On the cyclic graph of an object and an array that hold each other, both
  end up frozen.
\<close>

theorem deepFreeze_freezes_unfrozen_paths:
  "snd (deepFreeze h F obj) = obj
   \<and> F \<subseteq> fst (deepFreeze h F obj)
   \<and> (reachesUnfrozen h F r b \<longrightarrow> b \<in> fst (deepFreeze h F (VRef r)))
   \<and> deepFreeze h (fst (deepFreeze h F obj)) obj = deepFreeze h F obj
   \<and> deepFreeze [Object [(''a'', VRef 1)], Array [VRef 0, VRef 1]] {} (VRef 0) = ({0, 1}, VRef 0)"
proof (intro conjI impI)
  show "snd (deepFreeze h F obj) = obj"
    by (simp add: deepFreeze_def)
  show "F \<subseteq> fst (deepFreeze h F obj)"
    using deepFreezeLoop_grows [of F h "[obj]"] by (simp add: deepFreeze_def)
  show "b \<in> fst (deepFreeze h F (VRef r))" if "reachesUnfrozen h F r b"
    using deepFreezeLoop_reaches [OF that] by (simp add: deepFreeze_def)
  show "deepFreeze h (fst (deepFreeze h F obj)) obj = deepFreeze h F obj"
    by (rule deepFreeze_twice)
  show "deepFreeze [Object [(''a'', VRef 1)], Array [VRef 0, VRef 1]] {} (VRef 0) = ({0, 1}, VRef 0)"
    by (simp add: deepFreeze_def deepFreezeLoop.simps toPush_def lookup_def insert_commute)
qed

theorem deepFreeze_freezes_unfrozen_paths_witness:
  "reachesUnfrozen [Object [(''a'', VRef 1)], Array [VRef 0, VRef 1]] {} 0 1
   \<and> 1 \<in> fst (deepFreeze [Object [(''a'', VRef 1)], Array [VRef 0, VRef 1]] {} (VRef 0))"
proof -
  let ?h = "[Object [(''a'', VRef 1)], Array [VRef 0, VRef 1]]"
  have "reachesUnfrozen ?h {} 0 0" by (rule reachesUnfrozen.root)
  then have "reachesUnfrozen ?h {} 0 1"
    by (rule reachesUnfrozen.step) (simp_all add: lookup_def)
  then show ?thesis
    using deepFreeze_freezes_unfrozen_paths [of ?h "{}" "VRef 0" 0 1] by blast
qed

text \<open>
  C3 as stated fails when an object below the root is frozen before the call:
  \<^verbatim>\<open>deepFreeze\<close> does not enqueue it, and what is reachable through it alone stays
  unfrozen. Here object 2 is reachable from the root 0 through the frozen object 1.
\<close>

theorem deepFreeze_skips_below_frozen:
  "reachesUnfrozen [Object [(''a'', VRef 1)], Object [(''b'', VRef 2)], Object []] {} 0 2
   \<and> deepFreeze [Object [(''a'', VRef 1)], Object [(''b'', VRef 2)], Object []] {1} (VRef 0)
       = ({0, 1}, VRef 0)
   \<and> 2 \<notin> fst (deepFreeze [Object [(''a'', VRef 1)], Object [(''b'', VRef 2)], Object []] {1} (VRef 0))"
proof -
  let ?h = "[Object [(''a'', VRef 1)], Object [(''b'', VRef 2)], Object []]"
  have "reachesUnfrozen ?h {} 0 0" by (rule reachesUnfrozen.root)
  then have "reachesUnfrozen ?h {} 0 1"
    by (rule reachesUnfrozen.step) (simp_all add: lookup_def)
  then have 1: "reachesUnfrozen ?h {} 0 2"
    by (rule reachesUnfrozen.step) (simp_all add: lookup_def)
  have 2: "deepFreeze ?h {1} (VRef 0) = ({0, 1}, VRef 0)"
    by (simp add: deepFreeze_def deepFreezeLoop.simps toPush_def lookup_def insert_commute)
  show ?thesis using 1 2 by simp
qed


section \<open>Properties of safeStringify\<close>



































section \<open>Properties of mixin\<close>


















declare props.simps [simp del] objectLiteral.simps [simp del] setProp.simps [simp del]
  mixinKeys.simps(2) [simp del]
















declare mixin.simps(2) [simp del]








text \<open>A key of the source that names a member every object inherits is \<^verbatim>\<open>in\<close> the
  destination: with \<^verbatim>\<open>overwrite\<close> false it is not copied.\<close>

lemma mixin_inherited_name:
  "mixin 2 [Object [], Object [(''toString'', VNum 2)]] (VRef 0) (VRef 1) False
     = Some ([Object [], Object [(''toString'', VNum 2)]], VRef 0)"
  by (simp add: numeral_2_eq_2 mixin.simps mixinKeys.simps objectLiteral.simps props.simps
      setProp.simps lookup_def keys_def getProp_def hasProp_def objectPrototypeKeys_def)




end
